theory Spec2Isabelle
  imports Main "HOL-Library.AList"
begin

section \<open>Messages and the message reducer\<close>

text \<open>
  The messages of \<^verbatim>\<open>langchain_core.messages\<close> as far as the framework reads them:
  the optional \<^verbatim>\<open>id\<close>, the class of the message and its \<^verbatim>\<open>content\<close>.
\<close>

datatype message_type = SystemMessage | HumanMessage | AIMessage | FunctionMessage

record message =
  msg_id :: "string option"
  msg_type :: message_type
  content :: string

text \<open>
  \<^verbatim>\<open>not message.id\<close>: Python's truth test fails for \<^verbatim>\<open>None\<close> and for the
  empty string.
\<close>

definition lacks_id :: "message \<Rightarrow> bool" where
  "lacks_id m = (msg_id m = None \<or> msg_id m = Some [])"

text \<open>
  First loop of \<^verbatim>\<open>reduce_messages\<close>:
  \<^verbatim>\<open>for message in right: if not message.id: message.id = str(uuid4())\<close>.
  The random generator is a parameter: \<open>uuid4 k\<close> is the string that the \<open>k\<close>-th call
  of \<^verbatim>\<open>str(uuid4())\<close> returns, and the number of calls made so far is passed
  along and returned.
\<close>

fun assign_ids :: "(nat \<Rightarrow> string) \<Rightarrow> nat \<Rightarrow> message list \<Rightarrow> message list \<times> nat" where
  "assign_ids uuid4 k [] = ([], k)"
| "assign_ids uuid4 k (m # ms) =
     (if lacks_id m
      then (case assign_ids uuid4 (Suc k) ms of
              (ms', k') \<Rightarrow> (m\<lparr>msg_id := Some (uuid4 k)\<rparr> # ms', k'))
      else (case assign_ids uuid4 k ms of
              (ms', k') \<Rightarrow> (m # ms', k')))"

text \<open>
  The inner loop
  \<^verbatim>\<open>for i, existing in enumerate(merged): if existing.id == message.id: merged[i] = message; break\<close>.
  \<open>None\<close> is the loop running to its end without \<^verbatim>\<open>break\<close>, which is when the
  \<^verbatim>\<open>else\<close> branch of the loop appends.
\<close>

fun replace_first :: "message \<Rightarrow> message list \<Rightarrow> message list option" where
  "replace_first m [] = None"
| "replace_first m (existing # rest) =
     (if msg_id existing = msg_id m then Some (m # rest)
      else map_option ((#) existing) (replace_first m rest))"

definition merge_one :: "message list \<Rightarrow> message \<Rightarrow> message list" where
  "merge_one merged m =
     (case replace_first m merged of
        Some merged' \<Rightarrow> merged'
      | None \<Rightarrow> merged @ [m])"

text \<open>Second loop: \<^verbatim>\<open>merged = left.copy(); for message in right: ...\<close>.\<close>

definition merge_loop :: "message list \<Rightarrow> message list \<Rightarrow> message list" where
  "merge_loop left right = foldl merge_one left right"

text \<open>
  \<^verbatim>\<open>reduce_messages(left, right)\<close> on two separate lists: the merged list, together
  with the number of generator calls made. The function has no \<^verbatim>\<open>raise\<close>
  statement and no failing operation on lists of messages: it is total.
\<close>

definition reduce_messages ::
  "(nat \<Rightarrow> string) \<Rightarrow> nat \<Rightarrow> message list \<Rightarrow> message list \<Rightarrow> message list \<times> nat" where
  "reduce_messages uuid4 k left right =
     (case assign_ids uuid4 k right of
        (right', k') \<Rightarrow> (merge_loop left right', k'))"

section \<open>Agent state in a store\<close>

text \<open>
  \<^verbatim>\<open>AgentState\<close> is a dictionary with the keys \<^verbatim>\<open>messages\<close> and
  \<^verbatim>\<open>metadata\<close>; each holds a reference to a mutable object (a list, a dictionary).
  The store maps references to the current contents of these objects, so that an
  in-place update is visible to every holder of the reference. Metadata values are
  \<^verbatim>\<open>Any\<close> in the source; the model has integers, strings and \<^verbatim>\<open>None\<close>.
\<close>

datatype pyval = PyInt int | PyStr string | PyNone

datatype error = IndexError | TypeError | LLMError

type_synonym ref = nat

record store =
  list_at :: "ref \<Rightarrow> message list"
  dict_at :: "ref \<Rightarrow> (string \<rightharpoonup> pyval)"

record AgentState =
  messages :: ref
  metadata :: ref

datatype AgentRole = COORDINATOR | EXECUTOR | CRITIC | RESEARCHER | CUSTOM

text \<open>
  \<^verbatim>\<open>AgentConfig\<close>. The fields \<^verbatim>\<open>tools\<close>, \<^verbatim>\<open>model\<close>,
  \<^verbatim>\<open>temperature\<close> and \<^verbatim>\<open>custom_functions\<close> only configure the chat model that
  \<^verbatim>\<open>BaseAgent.__init__\<close> builds; the model stands for them by \<open>llm\<close>, the
  function \<^verbatim>\<open>self.llm.invoke\<close> of the agent built from the configuration:
  \<open>None\<close> when the call raises, the one response message otherwise.
\<close>

record AgentConfig =
  name :: string
  role :: AgentRole
  system_message :: string
  llm :: "message list \<Rightarrow> message option"

text \<open>
  \<^verbatim>\<open>SingleAgent.process\<close>: the prompt is the system message followed by the
  history; the response is appended to the list that \<^verbatim>\<open>state["messages"]\<close> refers
  to, in place, and the same state dictionary is returned.
\<close>

definition process :: "AgentConfig \<Rightarrow> store \<Rightarrow> AgentState \<Rightarrow> error + (store \<times> AgentState)" where
  "process cfg \<sigma> state =
     (let msgs = \<lparr>msg_id = None, msg_type = SystemMessage, content = system_message cfg\<rparr>
                 # list_at \<sigma> (messages state)
      in case llm cfg msgs of
           None \<Rightarrow> Inl LLMError
         | Some response \<Rightarrow>
             Inr (\<sigma>\<lparr>list_at := (list_at \<sigma>)(messages state := list_at \<sigma> (messages state) @ [response])\<rparr>,
                  state))"

text \<open>
  \<^verbatim>\<open>len(state["messages"]) < state["metadata"].get("max_turns", default)\<close>:
  comparing an integer with a string or with \<^verbatim>\<open>None\<close> raises
  \<^verbatim>\<open>TypeError\<close>. Nothing else of the state is read.
\<close>

definition turns_left :: "int \<Rightarrow> store \<Rightarrow> AgentState \<Rightarrow> error + bool" where
  "turns_left dflt \<sigma> state =
     (case (case dict_at \<sigma> (metadata state) ''max_turns'' of
              None \<Rightarrow> PyInt dflt
            | Some v \<Rightarrow> v) of
        PyInt n \<Rightarrow> Inr (int (length (list_at \<sigma> (messages state))) < n)
      | PyStr s \<Rightarrow> Inl TypeError
      | PyNone \<Rightarrow> Inl TypeError)"

definition SingleAgent_should_continue :: "store \<Rightarrow> AgentState \<Rightarrow> error + bool" where
  "SingleAgent_should_continue \<sigma> state = turns_left 10 \<sigma> state"

definition MultiAgentWorkflow_should_continue :: "store \<Rightarrow> AgentState \<Rightarrow> error + bool" where
  "MultiAgentWorkflow_should_continue \<sigma> state = turns_left 20 \<sigma> state"

section \<open>Building the workflow graph\<close>

text \<open>
  What \<^verbatim>\<open>_build_graph\<close> puts into the \<^verbatim>\<open>StateGraph\<close>: the nodes (a name
  and the agent whose \<^verbatim>\<open>process\<close> it runs), the plain edges, the conditional edges
  (all of them with \<^verbatim>\<open>self._should_continue\<close> as condition and a path map for
  \<^verbatim>\<open>True\<close> and \<^verbatim>\<open>False\<close>) and the entry point.
\<close>

datatype node_ref = Node string | END

record StateGraph =
  nodes :: "(string \<times> AgentConfig) list"
  edges :: "(string \<times> string) list"
  branches :: "(string \<times> node_ref \<times> node_ref) list"
  entry_point :: "string option"

definition empty_graph :: StateGraph where
  "empty_graph = \<lparr>nodes = [], edges = [], branches = [], entry_point = None\<rparr>"

text \<open>
  \<^verbatim>\<open>{cfg.name: SingleAgent(cfg) for cfg in agents}\<close>: a dictionary keeps a key at
  the position of its first insertion and the value of its last one.
\<close>

definition agents_dict :: "AgentConfig list \<Rightarrow> (string \<times> AgentConfig) list" where
  "agents_dict cfgs = foldl (\<lambda>d cfg. AList.update (name cfg) cfg d) [] cfgs"

text \<open>
  The loop of the sequential pattern. \<^verbatim>\<open>if prev_node:\<close> is Python's truth test:
  it fails for \<^verbatim>\<open>None\<close> and for the empty name.
\<close>

fun sequential_loop ::
  "(string \<times> AgentConfig) list \<Rightarrow> string option \<Rightarrow> StateGraph \<Rightarrow> string option \<times> StateGraph" where
  "sequential_loop [] prev_node g = (prev_node, g)"
| "sequential_loop ((nm, agent) # rest) prev_node g =
     (let g1 = g\<lparr>nodes := nodes g @ [(nm, agent)]\<rparr>;
          g2 = (case prev_node of
                  None \<Rightarrow> g1
                | Some p \<Rightarrow> if p \<noteq> [] then g1\<lparr>edges := edges g1 @ [(p, nm)]\<rparr> else g1)
      in sequential_loop rest (Some nm) g2)"

definition broadcast_edges :: "string list \<Rightarrow> (string \<times> string) list" where
  "broadcast_edges keys =
     concat (map (\<lambda>nm. map (\<lambda>other. (nm, other)) (filter (\<lambda>n. n \<noteq> nm) keys)) keys)"

text \<open>
  \<^verbatim>\<open>MultiAgentWorkflow._build_graph\<close>. \<^verbatim>\<open>list(self.agents.keys())[0]\<close> raises
  \<^verbatim>\<open>IndexError\<close> on an empty dictionary: in the sequential branch while the
  arguments of \<^verbatim>\<open>add_conditional_edges\<close> are evaluated, otherwise at
  \<^verbatim>\<open>set_entry_point\<close>. On a non-empty dictionary the loop of the sequential branch
  always leaves a previous node (lemma \<open>sequential_loop_last\<close>), so the second
  \<open>IndexError\<close> of that branch is never returned. What the graph library checks in
  \<^verbatim>\<open>compile\<close> is not part of the repository and not of the model.
\<close>

definition build_graph :: "(string \<times> AgentConfig) list \<Rightarrow> string \<Rightarrow> error + StateGraph" where
  "build_graph agents communication_pattern =
     (case agents of
        [] \<Rightarrow> Inl IndexError
      | (first, a) # others \<Rightarrow>
          if communication_pattern = ''sequential'' then
            (case sequential_loop agents None empty_graph of
               (None, g) \<Rightarrow> Inl IndexError
             | (Some prev_node, g) \<Rightarrow>
                 Inr (g\<lparr>branches := branches g @ [(prev_node, Node first, END)],
                         entry_point := Some first\<rparr>))
          else if communication_pattern = ''broadcast'' then
            Inr (empty_graph\<lparr>nodes := agents,
                               edges := broadcast_edges (map fst agents),
                               entry_point := Some first\<rparr>)
          else Inr (empty_graph\<lparr>entry_point := Some first\<rparr>))"

record MultiAgentWorkflow =
  agents :: "(string \<times> AgentConfig) list"
  communication_pattern :: string
  graph :: StateGraph

text \<open>\<^verbatim>\<open>MultiAgentWorkflow.__init__\<close>.\<close>

definition MultiAgentWorkflow_init :: "AgentConfig list \<Rightarrow> string \<Rightarrow> error + MultiAgentWorkflow" where
  "MultiAgentWorkflow_init cfgs pattern =
     (case build_graph (agents_dict cfgs) pattern of
        Inl e \<Rightarrow> Inl e
      | Inr g \<Rightarrow> Inr \<lparr>agents = agents_dict cfgs, communication_pattern = pattern, graph = g\<rparr>)"

section \<open>Running the graph\<close>

text \<open>
  Modelled from the spec: the executor of the compiled graph (section 4.5, "nodes
  execute one at a time, in the order dictated by the topology edges"), with the edges
  and the condition as \<^verbatim>\<open>_build_graph\<close> wires them. The executor is the graph
  library's; it is a dependency, not code of the repository. The model keeps what the
  repository relies on: one node runs at a time on the state the executor holds; what
  the node returns under \<^verbatim>\<open>messages\<close> is folded into the executor's list by the
  reducer that \<^verbatim>\<open>AgentState\<close> annotates, \<^verbatim>\<open>reduce_messages(current, returned)\<close>;
  \<^verbatim>\<open>metadata\<close> is overwritten by what the node returns; then the edges leaving the
  node are followed, a conditional edge by evaluating its condition on the new state.

  \<open>reduce_on\<close> is \<^verbatim>\<open>reduce_messages(left, right)\<close> called on two lists of the store.
  Its first loop writes ids into the messages of \<open>right\<close>; when \<open>left\<close> is the same
  list object, it sees them. The result is the new list and the store after the first
  loop.
\<close>

definition reduce_on ::
  "(nat \<Rightarrow> string) \<Rightarrow> nat \<Rightarrow> store \<Rightarrow> ref \<Rightarrow> ref \<Rightarrow> message list \<times> store \<times> nat" where
  "reduce_on uuid4 k \<sigma> left right =
     (case assign_ids uuid4 k (list_at \<sigma> right) of
        (right', k') \<Rightarrow>
          (let \<sigma>' = \<sigma>\<lparr>list_at := (list_at \<sigma>)(right := right')\<rparr>
           in (merge_loop (list_at \<sigma>' left) right', \<sigma>', k')))"

text \<open>
  One node step: \<^verbatim>\<open>process\<close> on the executor's state, then the updates of the two
  keys. \<^verbatim>\<open>process\<close> returns the state it was given, so the list it returns is the
  executor's own list, which it has appended to. (Lemma \<open>reduce_messages_append\<close> below:
  an executor that kept a separate copy of its list would, on a history with
  pairwise-distinct ids, arrive at the same list.)
\<close>

definition node_step ::
  "(nat \<Rightarrow> string) \<Rightarrow> AgentConfig \<Rightarrow> AgentState \<Rightarrow> store \<Rightarrow> nat \<Rightarrow> error + (store \<times> nat)" where
  "node_step uuid4 cfg state \<sigma> k =
     (case process cfg \<sigma> state of
        Inl e \<Rightarrow> Inl e
      | Inr (\<sigma>1, returned) \<Rightarrow>
          (case reduce_on uuid4 k \<sigma>1 (messages state) (messages returned) of
             (merged, \<sigma>2, k') \<Rightarrow>
               Inr (\<sigma>2\<lparr>list_at := (list_at \<sigma>2)(messages state := merged),
                        dict_at := (dict_at \<sigma>2)(metadata state := dict_at \<sigma>2 (metadata returned))\<rparr>,
                    k')))"

text \<open>
  The nodes due after node \<open>n\<close>: the targets of its plain edges, and for a conditional
  edge the target that the path map gives for the value of
  \<^verbatim>\<open>MultiAgentWorkflow._should_continue\<close> on the new state.
\<close>

definition next_nodes :: "StateGraph \<Rightarrow> string \<Rightarrow> store \<Rightarrow> AgentState \<Rightarrow> error + node_ref list" where
  "next_nodes g n \<sigma> state =
     (let plain = map (\<lambda>e. Node (snd e)) (filter (\<lambda>e. fst e = n) (edges g))
      in case map_of (branches g) n of
           None \<Rightarrow> Inr plain
         | Some (on_true, on_false) \<Rightarrow>
             (case MultiAgentWorkflow_should_continue \<sigma> state of
                Inl e \<Rightarrow> Inl e
              | Inr b \<Rightarrow> Inr (plain @ [if b then on_true else on_false])))"

text \<open>
  The outcome of a run: the final messages and metadata with the names of the nodes
  run, in order; or the step limit reached (the fuel of the loop: the executor's bound
  on the number of steps); or an exception raised by a node or by the condition; or a
  step that the model does not follow: several nodes due at once, or a name that is no
  node of the graph.
\<close>

datatype outcome =
    Returned "message list" "string \<rightharpoonup> pyval" "string list"
  | StepLimit "message list" "string list"
  | Raised error "string list"
  | Parallel "node_ref list" "string list"
  | NoSuchNode string

fun run_nodes ::
  "(nat \<Rightarrow> string) \<Rightarrow> StateGraph \<Rightarrow> AgentState \<Rightarrow> nat \<Rightarrow> string \<Rightarrow> store \<Rightarrow> nat \<Rightarrow> string list \<Rightarrow> outcome" where
  "run_nodes uuid4 g state 0 n \<sigma> k visited = StepLimit (list_at \<sigma> (messages state)) visited"
| "run_nodes uuid4 g state (Suc fuel) n \<sigma> k visited =
     (case map_of (nodes g) n of
        None \<Rightarrow> NoSuchNode n
      | Some cfg \<Rightarrow>
          (case node_step uuid4 cfg state \<sigma> k of
             Inl e \<Rightarrow> Raised e (visited @ [n])
           | Inr (\<sigma>', k') \<Rightarrow>
               (case next_nodes g n \<sigma>' state of
                  Inl e \<Rightarrow> Raised e (visited @ [n])
                | Inr [] \<Rightarrow>
                    Returned (list_at \<sigma>' (messages state)) (dict_at \<sigma>' (metadata state)) (visited @ [n])
                | Inr [END] \<Rightarrow>
                    Returned (list_at \<sigma>' (messages state)) (dict_at \<sigma>' (metadata state)) (visited @ [n])
                | Inr [Node n'] \<Rightarrow> run_nodes uuid4 g state fuel n' \<sigma>' k' (visited @ [n])
                | Inr (t # t' # ts) \<Rightarrow> Parallel (t # t' # ts) (visited @ [n]))))"

text \<open>
  \<^verbatim>\<open>graph.invoke(initial_state)\<close>: the input is written into the channels of a fresh
  run, the messages through the reducer from the empty list, and the entry node runs
  first.
\<close>

definition fresh_state :: AgentState where
  "fresh_state = \<lparr>messages = 0, metadata = 0\<rparr>"

definition seed_store :: "(nat \<Rightarrow> string) \<Rightarrow> message list \<Rightarrow> (string \<rightharpoonup> pyval) \<Rightarrow> store \<times> nat" where
  "seed_store uuid4 input md =
     (case reduce_messages uuid4 0 [] input of
        (seeded, k) \<Rightarrow> (\<lparr>list_at = (\<lambda>r. [])(0 := seeded), dict_at = (\<lambda>r. Map.empty)(0 := md)\<rparr>, k))"

definition invoke ::
  "(nat \<Rightarrow> string) \<Rightarrow> nat \<Rightarrow> StateGraph \<Rightarrow> message list \<Rightarrow> (string \<rightharpoonup> pyval) \<Rightarrow> outcome" where
  "invoke uuid4 fuel g input md =
     (case entry_point g of
        None \<Rightarrow> NoSuchNode []
      | Some n \<Rightarrow>
          (case seed_store uuid4 input md of
             (\<sigma>, k) \<Rightarrow> run_nodes uuid4 g fresh_state fuel n \<sigma> k []))"

text \<open>
  \<^verbatim>\<open>MultiAgentWorkflow.run\<close>: the initial state is one \<^verbatim>\<open>HumanMessage\<close> without
  id and \<^verbatim>\<open>metadata or {}\<close>.
\<close>

definition run ::
  "(nat \<Rightarrow> string) \<Rightarrow> nat \<Rightarrow> MultiAgentWorkflow \<Rightarrow> string \<Rightarrow> (string \<rightharpoonup> pyval) option \<Rightarrow> outcome" where
  "run uuid4 fuel w initial_message md =
     invoke uuid4 fuel (graph w)
       [\<lparr>msg_id = None, msg_type = HumanMessage, content = initial_message\<rparr>]
       (case md of None \<Rightarrow> Map.empty | Some m \<Rightarrow> m)"

section \<open>The merge as the specification words it\<close>

text \<open>
  The following functions are not code of the repository. They state, by id, what the
  result of a merge is, so that the loops above can be compared with it.

  \<open>last_with_id i ms\<close> is the last message of \<open>ms\<close> whose id is \<open>i\<close>;
  \<open>updated right e\<close> is the entry that stands at the place of \<open>e\<close> after the merge;
  \<open>new_ids left right\<close> are the ids of \<open>right\<close> that no entry of \<open>left\<close> has,
  each once, in the order of their first occurrence.
\<close>

definition last_with_id :: "string option \<Rightarrow> message list \<Rightarrow> message option" where
  "last_with_id i ms = find (\<lambda>m. msg_id m = i) (rev ms)"

definition updated :: "message list \<Rightarrow> message \<Rightarrow> message" where
  "updated right e = (case last_with_id (msg_id e) right of Some m \<Rightarrow> m | None \<Rightarrow> e)"

definition first_occurrences :: "'a list \<Rightarrow> 'a list" where
  "first_occurrences xs = rev (remdups (rev xs))"

definition new_ids :: "message list \<Rightarrow> message list \<Rightarrow> string option list" where
  "new_ids left right =
     first_occurrences (filter (\<lambda>i. i \<notin> set (map msg_id left)) (map msg_id right))"

text \<open>
  The merge by id: every existing entry at its place, replaced by the last incoming
  message with its id if there is one; then one entry for each new id, at the place of
  the first incoming message with that id and with the value of the last one.
\<close>

definition merge_by_id :: "message list \<Rightarrow> message list \<Rightarrow> message list" where
  "merge_by_id left right =
     map (updated right) left @ List.map_filter (\<lambda>i. last_with_id i right) (new_ids left right)"

text \<open>
  The merge that appends every incoming message whose id no existing entry has, in
  incoming order.
\<close>

definition merge_as_claimed :: "message list \<Rightarrow> message list \<Rightarrow> message list" where
  "merge_as_claimed left right =
     map (updated right) left @ filter (\<lambda>m. msg_id m \<notin> set (map msg_id left)) right"

text \<open>
  The same for an existing sequence whose ids may repeat: of the entries that share an
  id only the first is replaced, the later ones stay as they are. \<open>seen\<close> holds the
  ids of the entries passed so far. On a sequence with pairwise-distinct ids this is
  the merge by id (lemma \<open>merge_first_by_id_distinct\<close>).
\<close>

fun update_firsts :: "message list \<Rightarrow> string option list \<Rightarrow> message list \<Rightarrow> message list" where
  "update_firsts right seen [] = []"
| "update_firsts right seen (e # es) =
     (if msg_id e \<in> set seen then e else updated right e) # update_firsts right (msg_id e # seen) es"

definition merge_first_by_id :: "message list \<Rightarrow> message list \<Rightarrow> message list" where
  "merge_first_by_id left right =
     update_firsts right [] left @ List.map_filter (\<lambda>i. last_with_id i right) (new_ids left right)"

text \<open>
  For a batch \<open>right\<close> and the batch \<open>right'\<close> after the first loop: the messages
  that lacked an id, as they are afterwards, and the messages that had one.
\<close>

definition assigned :: "message list \<Rightarrow> message list \<Rightarrow> message list" where
  "assigned right right' = map snd (filter (\<lambda>p. lacks_id (fst p)) (zip right right'))"

definition kept :: "message list \<Rightarrow> message list \<Rightarrow> message list" where
  "kept right right' = map snd (filter (\<lambda>p. \<not> lacks_id (fst p)) (zip right right'))"

section \<open>Notions used to state the properties of a run\<close>

text \<open>
  None of the following is code of the repository.

  \<open>prompt\<close> is the list that \<^verbatim>\<open>process\<close> passes to the model; \<open>stamped\<close> is a
  response after the first loop of the reducer, when \<open>k\<close> ids have been generated.

  \<open>history_ok uuid4 k H\<close>: the ids of \<open>H\<close> are pairwise distinct, every message has
  one, and the generator will not return any of them from its \<open>k\<close>-th call on.

  \<open>fresh_answers\<close> is the obligation of the data model on whoever produces a
  message: a response carries no id, or an id that no message of its prompt has and
  that the generator never returns. \<open>always_answers\<close>: the model call never raises.
\<close>

definition prompt :: "AgentConfig \<Rightarrow> message list \<Rightarrow> message list" where
  "prompt cfg H = \<lparr>msg_id = None, msg_type = SystemMessage, content = system_message cfg\<rparr> # H"

definition stamped :: "(nat \<Rightarrow> string) \<Rightarrow> nat \<Rightarrow> message \<Rightarrow> message" where
  "stamped uuid4 k r = (if lacks_id r then r\<lparr>msg_id := Some (uuid4 k)\<rparr> else r)"

definition history_ok :: "(nat \<Rightarrow> string) \<Rightarrow> nat \<Rightarrow> message list \<Rightarrow> bool" where
  "history_ok uuid4 k H =
     (distinct (map msg_id H) \<and> (\<forall>m\<in>set H. \<not> lacks_id m) \<and>
      (\<forall>n\<ge>k. Some (uuid4 n) \<notin> set (map msg_id H)))"

definition fresh_answers :: "(nat \<Rightarrow> string) \<Rightarrow> AgentConfig \<Rightarrow> bool" where
  "fresh_answers uuid4 cfg =
     (\<forall>ctx r. llm cfg ctx = Some r \<longrightarrow>
        lacks_id r \<or> (msg_id r \<notin> set (map msg_id ctx) \<and> msg_id r \<notin> range (\<lambda>n. Some (uuid4 n))))"

definition always_answers :: "AgentConfig \<Rightarrow> bool" where
  "always_answers cfg = (\<forall>ctx. llm cfg ctx \<noteq> None)"

text \<open>
  The states of a run of \<^verbatim>\<open>MultiAgentWorkflow.run\<close> over the agents \<open>cfgs\<close>: the
  seeded state, and the state after a node step of any of the agents from a state of
  the run. The order in which the graph visits the agents plays no role.
\<close>

inductive reachable ::
  "(nat \<Rightarrow> string) \<Rightarrow> AgentConfig list \<Rightarrow> string \<Rightarrow> (string \<rightharpoonup> pyval) option \<Rightarrow> store \<times> nat \<Rightarrow> bool"
  for uuid4 cfgs initial_message md where
  seeded:
    "reachable uuid4 cfgs initial_message md
       (seed_store uuid4 [\<lparr>msg_id = None, msg_type = HumanMessage, content = initial_message\<rparr>]
          (case md of None \<Rightarrow> Map.empty | Some m \<Rightarrow> m))"
| stepped:
    "reachable uuid4 cfgs initial_message md (\<sigma>, k) \<Longrightarrow> cfg \<in> set cfgs \<Longrightarrow>
     node_step uuid4 cfg fresh_state \<sigma> k = Inr (\<sigma>', k') \<Longrightarrow>
     reachable uuid4 cfgs initial_message md (\<sigma>', k')"

text \<open>
  The first \<open>n\<close> names of a visit that goes back and forth between two nodes,
  starting with \<open>a\<close>.
\<close>

fun alternate :: "nat \<Rightarrow> 'a \<Rightarrow> 'a \<Rightarrow> 'a list" where
  "alternate 0 a b = []"
| "alternate (Suc n) a b = a # alternate n b a"

text \<open>
  The edges that the loop of the sequential pattern adds, and the graph that
  \<^verbatim>\<open>_build_graph\<close> yields for agents with pairwise-distinct names, in closed form.
\<close>

fun chain_edges :: "string option \<Rightarrow> string list \<Rightarrow> (string \<times> string) list" where
  "chain_edges prev [] = []"
| "chain_edges prev (n # ns) =
     (case prev of None \<Rightarrow> [] | Some p \<Rightarrow> if p \<noteq> [] then [(p, n)] else [])
     @ chain_edges (Some n) ns"

definition sequential_graph :: "AgentConfig list \<Rightarrow> StateGraph" where
  "sequential_graph cfgs =
     \<lparr>nodes = map (\<lambda>c. (name c, c)) cfgs,
      edges = chain_edges None (map name cfgs),
      branches = [(name (last cfgs), Node (name (hd cfgs)), END)],
      entry_point = Some (name (hd cfgs))\<rparr>"

section \<open>Concrete inputs\<close>

text \<open>
  A generator whose \<open>k\<close>-th id is \<open>k + 1\<close> letters \<open>u\<close>: injective and never
  empty. Messages with and without an id; an agent whose model answers every prompt
  with its own name, in a message without id; an agent whose model answers every prompt
  with its own name, in a message with the id "fixed"; a state whose last message is a
  completion marker named in its metadata; three agents and two agents.
\<close>

definition uuid_demo :: "nat \<Rightarrow> string" where
  "uuid_demo k = replicate (Suc k) (CHR ''u'')"

definition msg :: "string \<Rightarrow> string \<Rightarrow> message" where
  "msg i c = \<lparr>msg_id = Some i, msg_type = AIMessage, content = c\<rparr>"

definition anon :: "string \<Rightarrow> message" where
  "anon c = \<lparr>msg_id = None, msg_type = AIMessage, content = c\<rparr>"

definition human :: "string \<Rightarrow> string \<Rightarrow> message" where
  "human i c = \<lparr>msg_id = Some i, msg_type = HumanMessage, content = c\<rparr>"

definition echo_agent :: "string \<Rightarrow> AgentConfig" where
  "echo_agent nm = \<lparr>name = nm, role = EXECUTOR, system_message = [],
       llm = (\<lambda>ctx. Some (anon nm))\<rparr>"


definition demo_store :: store where
  "demo_store =
     \<lparr>list_at = (\<lambda>r. [])(0 := [msg ''s'' ''start'', msg ''t'' ''TASK COMPLETE'']),
      dict_at = (\<lambda>r. Map.empty)(0 := [''max_turns'' \<mapsto> PyInt 10,
                                        ''completion_marker'' \<mapsto> PyStr ''TASK COMPLETE''])\<rparr>"

definition abc :: "AgentConfig list" where
  "abc = [echo_agent ''A'', echo_agent ''B'', echo_agent ''C'']"

definition xy :: "AgentConfig list" where
  "xy = [echo_agent ''X'', echo_agent ''Y'']"

section \<open>Properties of the reducer\<close>

lemma replace_first_ids: "replace_first m xs = Some ys \<Longrightarrow> map msg_id ys = map msg_id xs"
  by (induction xs arbitrary: ys) (auto split: if_splits)

lemma replace_first_None: "(replace_first m xs = None) = (msg_id m \<notin> set (map msg_id xs))"
  by (induction xs) auto

lemma replace_first_distinct:
  "distinct (map msg_id xs) \<Longrightarrow> msg_id m \<in> set (map msg_id xs) \<Longrightarrow>
   replace_first m xs = Some (map (\<lambda>e. if msg_id e = msg_id m then m else e) xs)"
proof (induction xs)
  case Nil
  then show ?case by simp
next
  case (Cons x xs)
  show ?case
  proof (cases "msg_id x = msg_id m")
    case True
    with Cons.prems have "msg_id m \<notin> set (map msg_id xs)" by simp
    then have "\<forall>e\<in>set xs. msg_id e \<noteq> msg_id m" by (auto simp: image_iff)
    then have "map (\<lambda>e. if msg_id e = msg_id m then m else e) xs = xs"
      by (simp add: map_idI)
    with True show ?thesis by simp
  next
    case False
    with Cons show ?thesis by auto
  qed
qed

lemma merge_one_ids:
  "map msg_id (merge_one xs m) =
     (if msg_id m \<in> set (map msg_id xs) then map msg_id xs else map msg_id xs @ [msg_id m])"
proof (cases "replace_first m xs")
  case None
  then show ?thesis using replace_first_None [of m xs] by (simp add: merge_one_def)
next
  case (Some ys)
  then show ?thesis using replace_first_None [of m xs] replace_first_ids [of m xs ys]
    by (simp add: merge_one_def)
qed

lemma merge_one_distinct:
  "distinct (map msg_id xs) \<Longrightarrow> distinct (map msg_id (merge_one xs m))"
  by (simp add: merge_one_ids)

lemma merge_loop_snoc: "merge_loop left (right @ [m]) = merge_one (merge_loop left right) m"
  by (simp add: merge_loop_def)

lemma merge_loop_append: "merge_loop left (xs @ ys) = merge_loop (merge_loop left xs) ys"
  by (simp add: merge_loop_def)

lemma merge_loop_distinct:
  "distinct (map msg_id left) \<Longrightarrow> distinct (map msg_id (merge_loop left right))"
  by (induction right rule: rev_induct) (simp_all add: merge_loop_snoc merge_one_distinct merge_loop_def)

lemma merge_one_distinct_eq:
  "distinct (map msg_id xs) \<Longrightarrow>
   merge_one xs m =
     (if msg_id m \<in> set (map msg_id xs) then map (\<lambda>e. if msg_id e = msg_id m then m else e) xs
      else xs @ [m])"
  using replace_first_distinct [of xs m] replace_first_None [of m xs]
  by (auto simp: merge_one_def)

lemma last_with_id_snoc:
  "last_with_id i (ms @ [m]) = (if msg_id m = i then Some m else last_with_id i ms)"
  by (simp add: last_with_id_def)

lemma last_with_id_id: "last_with_id i ms = Some m \<Longrightarrow> msg_id m = i"
  by (auto simp: last_with_id_def find_Some_iff)

lemma last_with_id_None: "(last_with_id i ms = None) = (i \<notin> set (map msg_id ms))"
  by (auto simp: last_with_id_def find_None_iff)

lemma updated_id: "msg_id (updated right e) = msg_id e"
  by (auto simp: updated_def dest: last_with_id_id split: option.splits)

lemma updated_snoc:
  "updated (right @ [m]) e = (if msg_id m = msg_id e then m else updated right e)"
  by (simp add: updated_def last_with_id_snoc)

lemma first_occurrences_snoc:
  "first_occurrences (xs @ [x]) = (if x \<in> set xs then first_occurrences xs else first_occurrences xs @ [x])"
  by (simp add: first_occurrences_def)

lemma set_first_occurrences: "set (first_occurrences xs) = set xs"
  by (simp add: first_occurrences_def)

lemma distinct_first_occurrences: "distinct (first_occurrences xs)"
  by (simp add: first_occurrences_def)

lemma new_ids_snoc:
  "new_ids left (right @ [m]) =
     (if msg_id m \<in> set (map msg_id left) \<or> msg_id m \<in> set (map msg_id right) then new_ids left right
      else new_ids left right @ [msg_id m])"
  by (auto simp: new_ids_def first_occurrences_snoc)

lemma set_new_ids: "set (new_ids left right) = set (map msg_id right) - set (map msg_id left)"
  by (auto simp: new_ids_def set_first_occurrences)

lemma merge_by_id_ids:
  "map msg_id (merge_by_id left right) = map msg_id left @ new_ids left right"
proof -
  have "map msg_id (List.map_filter (\<lambda>i. last_with_id i right) is) = is"
    if "set is \<subseteq> set (map msg_id right)" for "is"
    using that
  proof (induction "is")
    case Nil
    then show ?case by (simp add: List.map_filter_def)
  next
    case (Cons i "is")
    then obtain m where "last_with_id i right = Some m"
      using last_with_id_None [of i right] by auto
    with Cons show ?case
      by (auto simp: List.map_filter_def dest: last_with_id_id)
  qed
  then show ?thesis
    by (simp add: merge_by_id_def updated_id set_new_ids o_def)
qed

lemma map_filter_total:
  "\<forall>i\<in>set is. f i \<noteq> None \<Longrightarrow> List.map_filter f is = map (\<lambda>i. the (f i)) is"
  by (induction "is") (auto simp: List.map_filter_def)

lemma appended_eq:
  "List.map_filter (\<lambda>i. last_with_id i right) (new_ids left right) =
     map (\<lambda>i. the (last_with_id i right)) (new_ids left right)"
  by (rule map_filter_total) (simp add: set_new_ids last_with_id_None)

lemma merge_by_id_distinct:
  "distinct (map msg_id left) \<Longrightarrow> distinct (map msg_id (merge_by_id left right))"
proof -
  have "distinct (new_ids left right)"
    by (simp add: new_ids_def distinct_first_occurrences)
  then show "distinct (map msg_id left) \<Longrightarrow> distinct (map msg_id (merge_by_id left right))"
    by (auto simp: merge_by_id_ids set_new_ids)
qed

lemma merge_by_id_snoc:
  assumes "distinct (map msg_id left)"
  shows "merge_by_id left (right @ [m]) = merge_one (merge_by_id left right) m"
proof -
  let ?B = "merge_by_id left right"
  let ?N = "map (\<lambda>i. the (last_with_id i right)) (new_ids left right)"
  have B: "?B = map (updated right) left @ ?N"
    by (simp add: merge_by_id_def appended_eq)
  have B': "merge_by_id left (right @ [m]) =
      map (updated (right @ [m])) left
      @ map (\<lambda>i. the (last_with_id i (right @ [m]))) (new_ids left (right @ [m]))"
    by (simp add: merge_by_id_def appended_eq)
  have dB: "distinct (map msg_id ?B)"
    using assms by (rule merge_by_id_distinct)
  have idsB: "set (map msg_id ?B) = set (map msg_id left) \<union> set (map msg_id right)"
    by (auto simp: merge_by_id_ids set_new_ids)
  have N_id: "msg_id (the (last_with_id i right)) = i" if "i \<in> set (new_ids left right)" for i
  proof -
    from that have "i \<in> set (map msg_id right)" by (simp add: set_new_ids)
    then obtain x where "last_with_id i right = Some x"
      using last_with_id_None [of i right] by auto
    then show ?thesis by (auto dest: last_with_id_id)
  qed
  have one: "merge_one ?B m =
     (if msg_id m \<in> set (map msg_id ?B) then map (\<lambda>e. if msg_id e = msg_id m then m else e) ?B
      else ?B @ [m])"
    using dB by (rule merge_one_distinct_eq)
  show ?thesis
  proof (cases "msg_id m \<in> set (map msg_id left)")
    case True
    then have new: "new_ids left (right @ [m]) = new_ids left right"
      by (simp add: new_ids_snoc)
    have "msg_id m \<notin> set (new_ids left right)"
      using True by (simp add: set_new_ids)
    then have N: "map (\<lambda>e. if msg_id e = msg_id m then m else e) ?N = ?N"
      "map (\<lambda>i. the (last_with_id i (right @ [m]))) (new_ids left right) = ?N"
      by (auto simp: N_id last_with_id_snoc intro!: map_idI)
    have "map (\<lambda>e. if msg_id e = msg_id m then m else e) (map (updated right) left)
            = map (updated (right @ [m])) left"
      by (auto simp: updated_snoc updated_id)
    with N new True idsB one B show ?thesis
      by (simp add: B')
  next
    case notleft: False
    then have "\<forall>e\<in>set left. msg_id e \<noteq> msg_id m"
      by (auto simp: image_iff)
    then have L: "map (updated (right @ [m])) left = map (updated right) left"
      "map (\<lambda>e. if msg_id e = msg_id m then m else e) (map (updated right) left) = map (updated right) left"
      by (auto simp: updated_snoc updated_id intro!: map_idI)
    show ?thesis
    proof (cases "msg_id m \<in> set (map msg_id right)")
      case True
      with notleft have new: "new_ids left (right @ [m]) = new_ids left right"
        by (simp add: new_ids_snoc)
      have "map (\<lambda>e. if msg_id e = msg_id m then m else e) ?N
              = map (\<lambda>i. the (last_with_id i (right @ [m]))) (new_ids left right)"
        by (auto simp: N_id last_with_id_snoc)
      with L new True idsB one B show ?thesis
        by (simp add: B')
    next
      case False
      with notleft have new: "new_ids left (right @ [m]) = new_ids left right @ [msg_id m]"
        by (simp add: new_ids_snoc)
      have "msg_id m \<notin> set (new_ids left right)"
        using False by (simp add: set_new_ids)
      then have "map (\<lambda>i. the (last_with_id i (right @ [m]))) (new_ids left right) = ?N"
        by (auto simp: last_with_id_snoc)
      with L new False notleft idsB one B show ?thesis
        by (simp add: B' last_with_id_snoc)
    qed
  qed
qed

lemma merge_loop_eq:
  "distinct (map msg_id left) \<Longrightarrow> merge_loop left right = merge_by_id left right"
proof (induction right rule: rev_induct)
  case Nil
  then show ?case
    by (simp add: merge_loop_def merge_by_id_def new_ids_def first_occurrences_def
        List.map_filter_def updated_def last_with_id_def map_idI)
next
  case (snoc m right)
  then show ?case by (simp add: merge_loop_snoc merge_by_id_snoc)
qed

lemma replace_first_append:
  "replace_first m (xs @ ys) =
     (case replace_first m xs of
        Some xs' \<Rightarrow> Some (xs' @ ys)
      | None \<Rightarrow> (case replace_first m ys of None \<Rightarrow> None | Some ys' \<Rightarrow> Some (xs @ ys')))"
  by (induction xs) (auto split: option.splits)

lemma update_firsts_ids: "map msg_id (update_firsts right seen es) = map msg_id es"
  by (induction es arbitrary: seen) (simp_all add: updated_id)

lemma update_firsts_seen:
  "msg_id m \<in> set seen \<Longrightarrow> update_firsts (right @ [m]) seen es = update_firsts right seen es"
  by (induction es arbitrary: seen) (auto simp: updated_snoc)

lemma update_firsts_other:
  "msg_id m \<notin> set (map msg_id es) \<Longrightarrow> update_firsts (right @ [m]) seen es = update_firsts right seen es"
  by (induction es arbitrary: seen) (auto simp: updated_snoc)

lemma replace_first_update_firsts:
  "msg_id m \<in> set (map msg_id es) \<Longrightarrow> msg_id m \<notin> set seen \<Longrightarrow>
   replace_first m (update_firsts right seen es) = Some (update_firsts (right @ [m]) seen es)"
proof (induction es arbitrary: seen)
  case Nil
  then show ?case by simp
next
  case (Cons e es)
  show ?case
  proof (cases "msg_id e = msg_id m")
    case True
    with Cons.prems show ?thesis
      by (simp add: updated_id updated_snoc update_firsts_seen)
  next
    case False
    with Cons.prems have "msg_id m \<in> set (map msg_id es)" "msg_id m \<notin> set (msg_id e # seen)"
      by auto
    from Cons.IH [OF this] False show ?thesis
      by (auto simp: updated_id updated_snoc)
  qed
qed

lemma update_firsts_distinct:
  "distinct (map msg_id es) \<Longrightarrow> set seen \<inter> set (map msg_id es) = {} \<Longrightarrow>
   update_firsts right seen es = map (updated right) es"
  by (induction es arbitrary: seen) auto

lemma merge_first_by_id_distinct:
  "distinct (map msg_id left) \<Longrightarrow> merge_first_by_id left right = merge_by_id left right"
  by (simp add: merge_first_by_id_def merge_by_id_def update_firsts_distinct)

lemma find_filter: "(\<And>x. P x \<Longrightarrow> Q x) \<Longrightarrow> find P (filter Q xs) = find P xs"
  by (induction xs) auto

lemma last_with_id_filter:
  "Q i \<Longrightarrow> last_with_id i (filter (\<lambda>m. Q (msg_id m)) ms) = last_with_id i ms"
proof -
  assume q: "Q i"
  have "find (\<lambda>m. msg_id m = i) (filter (\<lambda>m. Q (msg_id m)) (rev ms))
        = find (\<lambda>m. msg_id m = i) (rev ms)"
    by (rule find_filter) (use q in simp)
  then show ?thesis by (simp add: last_with_id_def rev_filter)
qed

lemma new_ids_filter:
  "new_ids left right = new_ids [] (filter (\<lambda>m. msg_id m \<notin> set (map msg_id left)) right)"
  by (simp add: new_ids_def filter_map o_def)

lemma appended_filter:
  "List.map_filter (\<lambda>i. last_with_id i right) (new_ids left right)
     = merge_by_id [] (filter (\<lambda>m. msg_id m \<notin> set (map msg_id left)) right)"
proof -
  let ?F = "filter (\<lambda>m. msg_id m \<notin> set (map msg_id left)) right"
  have "map (\<lambda>i. the (last_with_id i right)) (new_ids left right)
        = map (\<lambda>i. the (last_with_id i ?F)) (new_ids left right)"
  proof (rule map_cong)
    fix i assume "i \<in> set (new_ids left right)"
    then have "i \<notin> set (map msg_id left)" by (simp add: set_new_ids)
    from last_with_id_filter [of "\<lambda>i. i \<notin> set (map msg_id left)", OF this]
    show "the (last_with_id i right) = the (last_with_id i ?F)" by simp
  qed simp
  also have "\<dots> = map (\<lambda>i. the (last_with_id i ?F)) (new_ids [] ?F)"
    using new_ids_filter [of left right] by simp
  finally show ?thesis
    by (simp add: merge_by_id_def appended_eq)
qed

lemma merge_first_by_id_snoc:
  "merge_one (merge_first_by_id left right) m = merge_first_by_id left (right @ [m])"
proof -
  let ?Q = "\<lambda>x. msg_id x \<notin> set (map msg_id left)"
  let ?U = "update_firsts right [] left"
  let ?N = "merge_by_id [] (filter ?Q right)"
  have M: "merge_first_by_id left r = update_firsts r [] left @ merge_by_id [] (filter ?Q r)" for r
    by (simp add: merge_first_by_id_def appended_filter)
  show ?thesis
  proof (cases "msg_id m \<in> set (map msg_id left)")
    case True
    from replace_first_update_firsts [OF True, of "[]" right]
    have "replace_first m ?U = Some (update_firsts (right @ [m]) [] left)" by simp
    with True show ?thesis
      by (simp add: M merge_one_def replace_first_append)
  next
    case False
    then have "replace_first m ?U = None"
      by (simp add: replace_first_None update_firsts_ids)
    then have "merge_one (?U @ ?N) m = ?U @ merge_one ?N m"
      by (simp add: merge_one_def replace_first_append split: option.splits)
    moreover have "merge_one ?N m = merge_by_id [] (filter ?Q right @ [m])"
      by (simp add: merge_by_id_snoc)
    ultimately show ?thesis using False
      by (simp add: M update_firsts_other)
  qed
qed

lemma merge_loop_first_by_id: "merge_loop left right = merge_first_by_id left right"
proof (induction right rule: rev_induct)
  case Nil
  have "update_firsts [] seen es = es" for seen es
    by (induction es arbitrary: seen) (simp_all add: updated_def last_with_id_def)
  then show ?case
    by (simp add: merge_loop_def merge_first_by_id_def new_ids_def first_occurrences_def
        List.map_filter_def)
next
  case (snoc m right)
  then show ?case by (simp add: merge_loop_snoc merge_first_by_id_snoc)
qed

lemma assign_ids_Cons:
  "assign_ids uuid4 k (m # ms) =
     (if lacks_id m
      then (m\<lparr>msg_id := Some (uuid4 k)\<rparr> # fst (assign_ids uuid4 (Suc k) ms),
            snd (assign_ids uuid4 (Suc k) ms))
      else (m # fst (assign_ids uuid4 k ms), snd (assign_ids uuid4 k ms)))"
  by (simp split: prod.splits)

lemmas assign_ids_simps = assign_ids.simps(1) assign_ids_Cons

declare assign_ids.simps(2) [simp del]

lemma assign_ids_length: "length (fst (assign_ids uuid4 k ms)) = length ms"
  by (induction ms arbitrary: k) (simp_all add: assign_ids_Cons)

lemma assign_ids_count: "snd (assign_ids uuid4 k ms) = k + length (filter lacks_id ms)"
  by (induction ms arbitrary: k) (simp_all add: assign_ids_Cons)

lemma assign_ids_noop: "\<forall>m\<in>set ms. \<not> lacks_id m \<Longrightarrow> assign_ids uuid4 k ms = (ms, k)"
  by (induction ms arbitrary: k) (simp_all add: assign_ids_Cons)

lemma assign_ids_kept: "kept ms (fst (assign_ids uuid4 k ms)) = filter (\<lambda>m. \<not> lacks_id m) ms"
  by (induction ms arbitrary: k) (simp_all add: kept_def assign_ids_Cons)

lemma assign_ids_assigned:
  "map msg_id (assigned ms (fst (assign_ids uuid4 k ms))) =
     map (\<lambda>n. Some (uuid4 n)) [k..<snd (assign_ids uuid4 k ms)]"
proof (induction ms arbitrary: k)
  case Nil
  then show ?case by (simp add: assigned_def)
next
  case (Cons m ms)
  show ?case
  proof (cases "lacks_id m")
    case True
    have "k < snd (assign_ids uuid4 (Suc k) ms)"
      by (simp add: assign_ids_count)
    then have "[k..<snd (assign_ids uuid4 (Suc k) ms)] = k # [Suc k..<snd (assign_ids uuid4 (Suc k) ms)]"
      by (simp add: upt_conv_Cons)
    with True Cons [of "Suc k"] show ?thesis
      by (simp add: assigned_def assign_ids_Cons)
  next
    case False
    with Cons [of k] show ?thesis
      by (simp add: assigned_def assign_ids_Cons)
  qed
qed

lemma assign_ids_has_id:
  "\<forall>n. uuid4 n \<noteq> [] \<Longrightarrow> m \<in> set (fst (assign_ids uuid4 k ms)) \<Longrightarrow> \<not> lacks_id m"
  by (induction ms arbitrary: k) (auto simp: lacks_id_def assign_ids_Cons split: if_splits)

lemma merge_loop_ids:
  "map msg_id (merge_loop left right) = map msg_id left @ new_ids left right"
proof (induction right rule: rev_induct)
  case Nil
  then show ?case by (simp add: merge_loop_def new_ids_def first_occurrences_def)
next
  case (snoc m right)
  have "set (map msg_id left @ new_ids left right) = set (map msg_id left) \<union> set (map msg_id right)"
    by (auto simp: set_new_ids)
  with snoc show ?case
    by (auto simp: merge_loop_snoc merge_one_ids new_ids_snoc)
qed

lemma filter_id_single:
  "distinct (map msg_id xs) \<Longrightarrow> x \<in> set xs \<Longrightarrow> filter (\<lambda>e. msg_id e = msg_id x) xs = [x]"
proof (induction xs)
  case Nil
  then show ?case by simp
next
  case (Cons y ys)
  show ?case
  proof (cases "x = y")
    case True
    with Cons.prems have "\<forall>e\<in>set ys. msg_id e \<noteq> msg_id x" by (auto simp: image_iff)
    with True show ?thesis by (simp add: filter_empty_conv)
  next
    case False
    with Cons.prems have "x \<in> set ys" "msg_id y \<noteq> msg_id x" by (auto simp: image_iff)
    with Cons show ?thesis by simp
  qed
qed

lemma last_in_merge_by_id:
  assumes "last_with_id i right = Some x"
  shows "x \<in> set (merge_by_id left right)"
proof (cases "i \<in> set (map msg_id left)")
  case True
  then obtain e where "e \<in> set left" "msg_id e = i" by auto
  with assms have "updated right e = x" by (simp add: updated_def)
  with \<open>e \<in> set left\<close> show ?thesis by (auto simp: merge_by_id_def)
next
  case False
  from assms have "i \<in> set (map msg_id right)"
    using last_with_id_None [of i right] by auto
  with False have "i \<in> set (new_ids left right)" by (simp add: set_new_ids)
  with assms have "x \<in> set (map (\<lambda>i. the (last_with_id i right)) (new_ids left right))"
    by force
  then show ?thesis by (simp add: merge_by_id_def appended_eq)
qed

lemma merged_entry_is_last:
  assumes "distinct (map msg_id left)" and "i \<in> set (map msg_id right)"
  shows "map Some (filter (\<lambda>e. msg_id e = i) (merge_loop left right)) = [last_with_id i right]"
proof -
  from assms(2) obtain x where x: "last_with_id i right = Some x"
    using last_with_id_None [of i right] by auto
  then have "msg_id x = i" by (rule last_with_id_id)
  moreover have "x \<in> set (merge_by_id left right)" using x by (rule last_in_merge_by_id)
  moreover have "distinct (map msg_id (merge_by_id left right))"
    using assms(1) by (rule merge_by_id_distinct)
  ultimately have "filter (\<lambda>e. msg_id e = i) (merge_by_id left right) = [x]"
    using filter_id_single [of "merge_by_id left right" x] by simp
  with x assms(1) show ?thesis by (simp add: merge_loop_eq)
qed

lemma uuid_demo_inj: "inj uuid_demo"
proof (rule injI)
  fix x y
  assume "uuid_demo x = uuid_demo y"
  then have "length (uuid_demo x) = length (uuid_demo y)" by simp
  then show "x = y" by (simp add: uuid_demo_def)
qed

lemma uuid_demo_nonempty: "uuid_demo n \<noteq> []"
  by (simp add: uuid_demo_def)


lemma last_with_id_distinct:
  "distinct (map msg_id ys) \<Longrightarrow> y \<in> set ys \<Longrightarrow> last_with_id (msg_id y) ys = Some y"
proof (induction ys rule: rev_induct)
  case Nil
  then show ?case by simp
next
  case (snoc z zs)
  then show ?case by (auto simp: last_with_id_snoc image_iff)
qed

lemma merge_loop_same_ids:
  assumes "distinct (map msg_id xs)" and "map msg_id ys = map msg_id xs"
  shows "merge_loop xs ys = ys"
proof -
  have len: "length ys = length xs" using assms(2) by (metis length_map)
  have dy: "distinct (map msg_id ys)" using assms by simp
  have "new_ids xs ys = []" by (simp add: new_ids_def assms(2) first_occurrences_def)
  then have "merge_loop xs ys = map (updated ys) xs"
    using assms(1) by (simp add: merge_loop_eq merge_by_id_def List.map_filter_def)
  also have "\<dots> = ys"
  proof (rule nth_equalityI)
    show "length (map (updated ys) xs) = length ys" using len by simp
  next
    fix j assume "j < length (map (updated ys) xs)"
    then have j: "j < length xs" by simp
    then have "msg_id (xs ! j) = msg_id (ys ! j)"
      using assms(2) len by (metis nth_map)
    moreover have "last_with_id (msg_id (ys ! j)) ys = Some (ys ! j)"
      using dy j len by (simp add: last_with_id_distinct)
    ultimately show "map (updated ys) xs ! j = ys ! j"
      using j by (simp add: updated_def)
  qed
  finally show ?thesis .
qed

lemma merge_loop_all_new:
  "distinct (map msg_id (xs @ ns)) \<Longrightarrow> merge_loop xs ns = xs @ ns"
proof (induction ns rule: rev_induct)
  case Nil
  then show ?case by (simp add: merge_loop_def)
next
  case (snoc n ns)
  then have "merge_loop xs ns = xs @ ns" by simp
  moreover have "msg_id n \<notin> set (map msg_id (xs @ ns))" using snoc.prems by auto
  then have "replace_first n (xs @ ns) = None"
    using replace_first_None [of n "xs @ ns"] by blast
  ultimately show ?case by (simp add: merge_loop_snoc merge_one_def)
qed


section \<open>Properties of the agent node and of the graph\<close>

lemma turns_left_length_only:
  "turns_left dflt (\<sigma>\<lparr>list_at := (list_at \<sigma>)(messages state := map f (list_at \<sigma> (messages state)))\<rparr>) state
     = turns_left dflt \<sigma> state"
  by (simp add: turns_left_def split: option.splits pyval.splits)

lemma process_Inr:
  "process cfg \<sigma> state = Inr (\<sigma>', state') \<Longrightarrow>
   state' = state \<and>
   (\<exists>r. llm cfg (\<lparr>msg_id = None, msg_type = SystemMessage, content = system_message cfg\<rparr>
                   # list_at \<sigma> (messages state)) = Some r \<and>
        \<sigma>' = \<sigma>\<lparr>list_at := (list_at \<sigma>)(messages state := list_at \<sigma> (messages state) @ [r])\<rparr>)"
  by (auto simp: process_def Let_def split: option.splits)

lemma agents_dict_snoc:
  "agents_dict (cfgs @ [c]) = AList.update (name c) c (agents_dict cfgs)"
  by (simp add: agents_dict_def)

lemma agents_dict_keys: "map fst (agents_dict cfgs) = first_occurrences (map name cfgs)"
proof (induction cfgs rule: rev_induct)
  case Nil
  then show ?case by (simp add: agents_dict_def first_occurrences_def)
next
  case (snoc c cfgs)
  then show ?case
    by (simp add: agents_dict_snoc update_keys first_occurrences_snoc set_first_occurrences)
qed

lemma agents_dict_lookup:
  "map_of (agents_dict cfgs) nm = find (\<lambda>c. name c = nm) (rev cfgs)"
proof (induction cfgs rule: rev_induct)
  case Nil
  then show ?case by (simp add: agents_dict_def)
next
  case (snoc c cfgs)
  then show ?case by (auto simp: agents_dict_snoc update_conv')
qed

lemma foldl_update_head:
  "\<exists>v' rest. foldl (\<lambda>d cfg. AList.update (name cfg) cfg d) ((k, v) # al) cfgs = (k, v') # rest"
  by (induction cfgs arbitrary: v al) auto

lemma agents_dict_Cons: "\<exists>v rest. agents_dict (c # cfgs) = (name c, v) # rest"
  using foldl_update_head [of "name c" c "[]" cfgs] by (simp add: agents_dict_def)

lemma sequential_loop_last:
  "ags \<noteq> [] \<Longrightarrow> fst (sequential_loop ags prev g) = Some (fst (last ags))"
  by (induction ags prev g rule: sequential_loop.induct) (auto simp: Let_def)

lemma build_graph_nonempty:
  assumes "ags = (first, a) # others"
  shows "\<exists>g. build_graph ags pattern = Inr g \<and> entry_point g = Some first \<and>
             (pattern \<noteq> ''sequential'' \<and> pattern \<noteq> ''broadcast'' \<longrightarrow>
                nodes g = [] \<and> edges g = [] \<and> branches g = [])"
proof -
  from assms have "ags \<noteq> []" by simp
  then have "fst (sequential_loop ags None empty_graph) = Some (fst (last ags))"
    by (rule sequential_loop_last)
  then obtain g where "sequential_loop ags None empty_graph = (Some (fst (last ags)), g)"
    by (cases "sequential_loop ags None empty_graph") auto
  with assms show ?thesis
    by (auto simp: build_graph_def empty_graph_def)
qed

lemma update_new: "k \<notin> fst ` set al \<Longrightarrow> AList.update k v al = al @ [(k, v)]"
  by (induction al) auto

lemma agents_dict_distinct:
  "distinct (map name cfgs) \<Longrightarrow> agents_dict cfgs = map (\<lambda>c. (name c, c)) cfgs"
proof (induction cfgs rule: rev_induct)
  case Nil
  then show ?case by (simp add: agents_dict_def)
next
  case (snoc c cfgs)
  then have "name c \<notin> fst ` set (map (\<lambda>c. (name c, c)) cfgs)"
    by (auto simp: image_iff)
  with snoc show ?case
    by (simp add: agents_dict_snoc update_new)
qed

lemma sequential_loop_eq:
  "sequential_loop ags prev g =
     (if ags = [] then prev else Some (fst (last ags)),
      g\<lparr>nodes := nodes g @ ags, edges := edges g @ chain_edges prev (map fst ags)\<rparr>)"
  by (induction ags prev g rule: sequential_loop.induct) (auto simp: Let_def split: option.splits)

lemma init_sequential:
  assumes "cfgs \<noteq> []" and "distinct (map name cfgs)"
  shows "MultiAgentWorkflow_init cfgs ''sequential'' =
           Inr \<lparr>agents = map (\<lambda>c. (name c, c)) cfgs, communication_pattern = ''sequential'',
                graph = sequential_graph cfgs\<rparr>"
proof -
  from assms(1) obtain c cs where cfgs: "cfgs = c # cs" by (cases cfgs) auto
  have "fst (last (map (\<lambda>c. (name c, c)) cfgs)) = name (last cfgs)"
    using assms(1) by (simp add: last_map)
  with cfgs assms(2) show ?thesis
    by (simp add: MultiAgentWorkflow_init_def agents_dict_distinct build_graph_def
        sequential_loop_eq sequential_graph_def empty_graph_def o_def)
qed

lemma chain_edges_sources:
  "(a, b) \<in> set (chain_edges prev ns) \<Longrightarrow> prev = Some a \<or> a \<in> set (butlast ns)"
  by (induction ns arbitrary: prev) (auto split: option.splits if_splits)

lemma chain_edges_append:
  "chain_edges prev (as @ bs) =
     chain_edges prev as @ chain_edges (if as = [] then prev else Some (last as)) bs"
  by (induction as arbitrary: prev) auto

lemma filter_no_source:
  "\<forall>e\<in>set es. fst e \<noteq> x \<Longrightarrow> filter (\<lambda>e. fst e = x) es = []"
  by (simp add: filter_empty_conv)

lemma chain_edges_next:
  assumes "distinct (pre @ x # y # rest)" and "x \<noteq> []"
  shows "filter (\<lambda>e. fst e = x) (chain_edges None (pre @ x # y # rest)) = [(x, y)]"
proof -
  let ?p = "if pre = [] then None else Some (last pre)"
  have 1: "filter (\<lambda>e. fst e = x) (chain_edges None pre) = []"
  proof (rule filter_no_source, rule ballI)
    fix e assume "e \<in> set (chain_edges None pre)"
    then have "fst e \<in> set (butlast pre)"
      using chain_edges_sources [of "fst e" "snd e" None pre] by auto
    then have "fst e \<in> set pre" by (rule in_set_butlastD)
    with assms(1) show "fst e \<noteq> x" by auto
  qed
  have 2: "filter (\<lambda>e. fst e = x)
             (case ?p of None \<Rightarrow> [] | Some p \<Rightarrow> if p \<noteq> [] then [(p, x)] else []) = []"
    using assms(1) by (cases "pre = []") auto
  have 3: "filter (\<lambda>e. fst e = x) (chain_edges (Some y) rest) = []"
  proof (rule filter_no_source, rule ballI)
    fix e assume "e \<in> set (chain_edges (Some y) rest)"
    then have "fst e = y \<or> fst e \<in> set (butlast rest)"
      using chain_edges_sources [of "fst e" "snd e" "Some y" rest] by auto
    then have "fst e = y \<or> fst e \<in> set rest" by (auto dest: in_set_butlastD)
    with assms(1) show "fst e \<noteq> x" by auto
  qed
  have "chain_edges None (pre @ x # y # rest) =
          chain_edges None pre
          @ (case ?p of None \<Rightarrow> [] | Some p \<Rightarrow> if p \<noteq> [] then [(p, x)] else [])
          @ [(x, y)] @ chain_edges (Some y) rest"
    using assms(2) by (simp add: chain_edges_append)
  with 1 2 3 show ?thesis by simp
qed

lemma chain_edges_last:
  assumes "distinct (pre @ [x])"
  shows "filter (\<lambda>e. fst e = x) (chain_edges None (pre @ [x])) = []"
proof (rule filter_no_source, rule ballI)
  fix e assume "e \<in> set (chain_edges None (pre @ [x]))"
  then have "fst e \<in> set (butlast (pre @ [x]))"
    using chain_edges_sources [of "fst e" "snd e" None "pre @ [x]"] by auto
  with assms show "fst e \<noteq> x" by auto
qed

lemma map_of_named:
  "distinct (map name cfgs) \<Longrightarrow> c \<in> set cfgs \<Longrightarrow> map_of (map (\<lambda>c. (name c, c)) cfgs) (name c) = Some c"
  by (induction cfgs) (auto simp: image_iff)

lemma set_broadcast_edges:
  "set (broadcast_edges keys) = {(a, b). a \<in> set keys \<and> b \<in> set keys \<and> a \<noteq> b}"
  by (auto simp: broadcast_edges_def)

lemma init_broadcast:
  assumes "MultiAgentWorkflow_init cfgs ''broadcast'' = Inr w"
  shows "agents w = agents_dict cfgs \<and>
         graph w = \<lparr>nodes = agents_dict cfgs, edges = broadcast_edges (map fst (agents_dict cfgs)),
                     branches = [], entry_point = Some (fst (hd (agents_dict cfgs)))\<rparr>"
  using assms
  by (auto simp: MultiAgentWorkflow_init_def build_graph_def empty_graph_def
      split: sum.splits list.splits)

lemma nodes_subset_agents:
  "MultiAgentWorkflow_init cfgs pattern = Inr w \<Longrightarrow> set (nodes (graph w)) \<subseteq> set (agents w)"
  by (auto simp: MultiAgentWorkflow_init_def build_graph_def sequential_loop_eq empty_graph_def
      split: sum.splits list.splits if_splits)

section \<open>Properties of a run\<close>

lemma assign_ids_append:
  "assign_ids uuid4 k (xs @ ys) =
     (fst (assign_ids uuid4 k xs) @ fst (assign_ids uuid4 (snd (assign_ids uuid4 k xs)) ys),
      snd (assign_ids uuid4 (snd (assign_ids uuid4 k xs)) ys))"
  by (induction xs arbitrary: k) (simp_all add: assign_ids_Cons)

lemma assign_ids_history:
  "\<forall>m\<in>set H. \<not> lacks_id m \<Longrightarrow>
   assign_ids uuid4 k (H @ [r]) = (H @ [stamped uuid4 k r], if lacks_id r then Suc k else k)"
  by (simp add: assign_ids_append assign_ids_noop assign_ids_Cons stamped_def)

lemma merge_loop_self: "distinct (map msg_id xs) \<Longrightarrow> merge_loop xs xs = xs"
  by (rule merge_loop_same_ids) simp_all

lemma node_step_eq:
  "node_step uuid4 cfg state \<sigma> k =
     (case llm cfg (prompt cfg (list_at \<sigma> (messages state))) of
        None \<Rightarrow> Inl LLMError
      | Some r \<Rightarrow>
          (case assign_ids uuid4 k (list_at \<sigma> (messages state) @ [r]) of
             (right', k') \<Rightarrow>
               Inr (\<sigma>\<lparr>list_at := (list_at \<sigma>)(messages state := merge_loop right' right')\<rparr>, k')))"
  by (simp add: node_step_def process_def reduce_on_def prompt_def Let_def
      split: option.splits prod.splits)

lemma stamped_ok:
  assumes "history_ok uuid4 k H" and "inj uuid4" and "\<forall>n. uuid4 n \<noteq> []"
    and "lacks_id r \<or> (msg_id r \<notin> set (map msg_id H) \<and> msg_id r \<notin> range (\<lambda>n. Some (uuid4 n)))"
  shows "history_ok uuid4 (if lacks_id r then Suc k else k) (H @ [stamped uuid4 k r])"
proof (cases "lacks_id r")
  case True
  have "uuid4 n \<noteq> uuid4 k" if "Suc k \<le> n" for n
  proof
    assume "uuid4 n = uuid4 k"
    with assms(2) have "n = k" by (simp add: inj_eq)
    with that show False by simp
  qed
  with True assms(1,3) show ?thesis
    by (auto simp: history_ok_def stamped_def lacks_id_def)
next
  case False
  with assms(4) have a: "msg_id r \<notin> set (map msg_id H)"
    and b: "msg_id r \<notin> range (\<lambda>n. Some (uuid4 n))"
    by simp_all
  have "Some (uuid4 n) \<noteq> msg_id r" for n
    using b by (metis rangeI)
  with False a assms(1) show ?thesis
    by (simp add: history_ok_def stamped_def)
qed

lemma node_step_append:
  assumes "history_ok uuid4 k (list_at \<sigma> (messages state))"
    and "inj uuid4" and "\<forall>n. uuid4 n \<noteq> []"
    and "fresh_answers uuid4 cfg"
    and "llm cfg (prompt cfg (list_at \<sigma> (messages state))) = Some r"
  shows "node_step uuid4 cfg state \<sigma> k =
           Inr (\<sigma>\<lparr>list_at := (list_at \<sigma>)(messages state :=
                       list_at \<sigma> (messages state) @ [stamped uuid4 k r])\<rparr>,
                if lacks_id r then Suc k else k) \<and>
         history_ok uuid4 (if lacks_id r then Suc k else k)
           (list_at \<sigma> (messages state) @ [stamped uuid4 k r])"
proof -
  let ?H = "list_at \<sigma> (messages state)"
  from assms(4,5) have "lacks_id r \<or>
      (msg_id r \<notin> set (map msg_id (prompt cfg ?H)) \<and> msg_id r \<notin> range (\<lambda>n. Some (uuid4 n)))"
    unfolding fresh_answers_def by blast
  then have r: "lacks_id r \<or> (msg_id r \<notin> set (map msg_id ?H) \<and> msg_id r \<notin> range (\<lambda>n. Some (uuid4 n)))"
    by (auto simp: prompt_def)
  have ok: "history_ok uuid4 (if lacks_id r then Suc k else k) (?H @ [stamped uuid4 k r])"
    using assms(1,2,3) r by (rule stamped_ok)
  then have "distinct (map msg_id (?H @ [stamped uuid4 k r]))"
    by (simp add: history_ok_def)
  then have "merge_loop (?H @ [stamped uuid4 k r]) (?H @ [stamped uuid4 k r]) = ?H @ [stamped uuid4 k r]"
    by (rule merge_loop_self)
  moreover have "assign_ids uuid4 k (?H @ [r]) = (?H @ [stamped uuid4 k r], if lacks_id r then Suc k else k)"
    using assms(1) by (intro assign_ids_history) (simp add: history_ok_def)
  ultimately show ?thesis using ok assms(5) by (simp add: node_step_eq)
qed

lemma reduce_messages_append:
  assumes "history_ok uuid4 k H" and "inj uuid4" and "\<forall>n. uuid4 n \<noteq> []"
    and "lacks_id r \<or> (msg_id r \<notin> set (map msg_id H) \<and> msg_id r \<notin> range (\<lambda>n. Some (uuid4 n)))"
  shows "reduce_messages uuid4 k H (H @ [r]) =
           (H @ [stamped uuid4 k r], if lacks_id r then Suc k else k)"
proof -
  from stamped_ok [OF assms]
  have d: "distinct (map msg_id (H @ [stamped uuid4 k r]))"
    by (simp add: history_ok_def)
  then have "distinct (map msg_id H)" by simp
  then have "merge_loop H H = H" by (rule merge_loop_self)
  then have "merge_loop H (H @ [stamped uuid4 k r]) = merge_loop H [stamped uuid4 k r]"
    by (simp add: merge_loop_append)
  also have "\<dots> = H @ [stamped uuid4 k r]"
    using d by (rule merge_loop_all_new)
  finally show ?thesis
    using assms(1) by (simp add: reduce_messages_def assign_ids_history history_ok_def)
qed

lemma seed_store_ok:
  assumes "inj uuid4" and "\<forall>n. uuid4 n \<noteq> []"
  shows "seed_store uuid4 [\<lparr>msg_id = None, msg_type = HumanMessage, content = c\<rparr>] m
           = (\<lparr>list_at = (\<lambda>r. [])(0 := [\<lparr>msg_id = Some (uuid4 0), msg_type = HumanMessage, content = c\<rparr>]),
               dict_at = (\<lambda>r. Map.empty)(0 := m)\<rparr>, Suc 0) \<and>
         history_ok uuid4 (Suc 0) [\<lparr>msg_id = Some (uuid4 0), msg_type = HumanMessage, content = c\<rparr>]"
proof -
  have "uuid4 n \<noteq> uuid4 0" if "Suc 0 \<le> n" for n
  proof
    assume "uuid4 n = uuid4 0"
    with assms(1) have "n = 0" by (simp add: inj_eq)
    with that show False by simp
  qed
  with assms(2) show ?thesis
    by (simp add: seed_store_def reduce_messages_def assign_ids_simps lacks_id_def
        merge_loop_def merge_one_def history_ok_def)
qed


lemma run_nodes_reachable:
  assumes "reachable uuid4 cfgs initial_message md (\<sigma>, k)"
    and "snd ` set (nodes g) \<subseteq> set cfgs"
  shows "case run_nodes uuid4 g fresh_state fuel n \<sigma> k visited of
           Returned ms m tr \<Rightarrow>
             (\<exists>\<sigma>' k'. reachable uuid4 cfgs initial_message md (\<sigma>', k') \<and>
                ms = list_at \<sigma>' (messages fresh_state))
         | StepLimit ms tr \<Rightarrow>
             (\<exists>\<sigma>' k'. reachable uuid4 cfgs initial_message md (\<sigma>', k') \<and>
                ms = list_at \<sigma>' (messages fresh_state))
         | _ \<Rightarrow> True"
  using assms(1)
proof (induction fuel arbitrary: n \<sigma> k visited)
  case 0
  then show ?case by auto
next
  case (Suc fuel)
  show ?case
  proof (cases "map_of (nodes g) n")
    case None
    then show ?thesis by simp
  next
    case (Some cfg)
    then have cfg: "cfg \<in> set cfgs"
      using assms(2) by (auto dest!: map_of_SomeD)
    show ?thesis
    proof (cases "node_step uuid4 cfg fresh_state \<sigma> k")
      case (Inl e)
      with Some show ?thesis by simp
    next
      case (Inr c)
      obtain \<sigma>' k' where c: "c = (\<sigma>', k')" by (cases c)
      with Inr Suc.prems cfg have r: "reachable uuid4 cfgs initial_message md (\<sigma>', k')"
        by (auto intro: reachable.stepped)
      show ?thesis
      proof (cases "next_nodes g n \<sigma>' fresh_state")
        case (Inl e)
        with Some Inr c show ?thesis by simp
      next
        case nxt: (Inr ts)
        show ?thesis
        proof (cases ts)
          case Nil
          with Some Inr c nxt r show ?thesis by auto
        next
          case (Cons t ts')
          show ?thesis
          proof (cases ts')
            case Nil
            show ?thesis
            proof (cases t)
              case (Node n')
              with Some Inr c nxt Cons Nil Suc.IH [OF r, of n' "visited @ [n]"]
              show ?thesis by simp
            next
              case END
              with Some Inr c nxt Cons Nil r show ?thesis by auto
            qed
          next
            case (Cons t' ts'')
            with Some Inr c nxt \<open>ts = t # ts'\<close> show ?thesis
              by (simp split: node_ref.splits)
          qed
        qed
      qed
    qed
  qed
qed

lemma run_reachable:
  assumes "MultiAgentWorkflow_init cfgs pattern = Inr w"
  shows "case run uuid4 fuel w initial_message md of
           Returned ms m tr \<Rightarrow>
             (\<exists>\<sigma> k. reachable uuid4 (map snd (agents w)) initial_message md (\<sigma>, k) \<and>
                ms = list_at \<sigma> (messages fresh_state))
         | StepLimit ms tr \<Rightarrow>
             (\<exists>\<sigma> k. reachable uuid4 (map snd (agents w)) initial_message md (\<sigma>, k) \<and>
                ms = list_at \<sigma> (messages fresh_state))
         | _ \<Rightarrow> True"
proof (cases "entry_point (graph w)")
  case None
  then show ?thesis by (simp add: run_def invoke_def)
next
  case (Some n)
  let ?seed = "seed_store uuid4 [\<lparr>msg_id = None, msg_type = HumanMessage, content = initial_message\<rparr>]
      (case md of None \<Rightarrow> Map.empty | Some m \<Rightarrow> m)"
  obtain \<sigma>0 k0 where seed: "?seed = (\<sigma>0, k0)" by (cases ?seed)
  have "reachable uuid4 (map snd (agents w)) initial_message md ?seed"
    by (rule reachable.seeded)
  then have r: "reachable uuid4 (map snd (agents w)) initial_message md (\<sigma>0, k0)"
    by (simp add: seed)
  have sub: "snd ` set (nodes (graph w)) \<subseteq> set (map snd (agents w))"
    using nodes_subset_agents [OF assms] by auto
  from run_nodes_reachable [OF r sub, where fuel = fuel and n = n and visited = "[]"] Some seed
  show ?thesis by (simp add: run_def invoke_def)
qed

lemma should_continue_max_turns:
  "dict_at \<sigma> (metadata state) ''max_turns'' = Some (PyInt N) \<Longrightarrow>
   MultiAgentWorkflow_should_continue \<sigma> state = Inr (int (length (list_at \<sigma> (messages state))) < N)"
  by (simp add: MultiAgentWorkflow_should_continue_def turns_left_def)

lemma next_nodes_mid:
  assumes "distinct (map name cfgs)" and "\<forall>c\<in>set cfgs. name c \<noteq> []"
    and "cfgs = pre @ c # d # rest"
  shows "next_nodes (sequential_graph cfgs) (name c) \<sigma> state = Inr [Node (name d)]"
proof -
  have names: "map name cfgs = map name pre @ name c # name d # map name rest"
    using assms(3) by simp
  have "filter (\<lambda>e. fst e = name c) (chain_edges None (map name cfgs)) = [(name c, name d)]"
    unfolding names using assms(1,2,3) by (intro chain_edges_next) (simp_all add: names)
  moreover have "last cfgs \<in> set (d # rest)"
    using assms(3) by (metis append_is_Nil_conv last.simps last_appendR last_in_set list.distinct(1))
  then have "name (last cfgs) \<noteq> name c"
    using assms(1) unfolding names by (auto simp: image_iff)
  ultimately show ?thesis
    by (simp add: next_nodes_def sequential_graph_def)
qed

lemma next_nodes_last:
  assumes "distinct (map name cfgs)" and "cfgs = pre @ [c]"
    and "dict_at \<sigma> (metadata state) ''max_turns'' = Some (PyInt N)"
  shows "next_nodes (sequential_graph cfgs) (name c) \<sigma> state =
           Inr [if int (length (list_at \<sigma> (messages state))) < N then Node (name (hd cfgs)) else END]"
proof -
  have names: "map name cfgs = map name pre @ [name c]"
    using assms(2) by simp
  have "filter (\<lambda>e. fst e = name c) (chain_edges None (map name cfgs)) = []"
    unfolding names using assms(1) by (intro chain_edges_last) (simp add: names)
  moreover have "last cfgs = c" using assms(2) by simp
  ultimately show ?thesis
    using should_continue_max_turns [OF assms(3)]
    by (simp add: next_nodes_def sequential_graph_def)
qed

lemma run_nodes_segment:
  assumes "distinct (map name cfgs)" and "\<forall>c\<in>set cfgs. name c \<noteq> []"
    and "inj uuid4" and "\<forall>n. uuid4 n \<noteq> []"
    and "\<forall>c\<in>set cfgs. fresh_answers uuid4 c \<and> always_answers c"
    and "cfgs = pre @ c # rest"
    and "history_ok uuid4 k (list_at \<sigma> (messages fresh_state))"
    and "dict_at \<sigma> (metadata fresh_state) ''max_turns'' = Some (PyInt N)"
  shows "\<exists>\<sigma>' k'.
           history_ok uuid4 k' (list_at \<sigma>' (messages fresh_state)) \<and>
           length (list_at \<sigma>' (messages fresh_state))
             = length (list_at \<sigma> (messages fresh_state)) + Suc (length rest) \<and>
           dict_at \<sigma>' = dict_at \<sigma> \<and>
           (\<forall>fuel visited.
              run_nodes uuid4 (sequential_graph cfgs) fresh_state (Suc (length rest) + fuel) (name c) \<sigma> k visited =
                (if int (length (list_at \<sigma>' (messages fresh_state))) < N
                 then run_nodes uuid4 (sequential_graph cfgs) fresh_state fuel (name (hd cfgs)) \<sigma>' k'
                        (visited @ map name (c # rest))
                 else Returned (list_at \<sigma>' (messages fresh_state)) (dict_at \<sigma>' (metadata fresh_state))
                        (visited @ map name (c # rest))))"
  using assms(6,7,8)
proof (induction rest arbitrary: pre c \<sigma> k)
  case Nil
  let ?H = "list_at \<sigma> (messages fresh_state)"
  from Nil.prems(1) have c: "c \<in> set cfgs" by simp
  with assms(5) have fa: "fresh_answers uuid4 c" and "always_answers c" by auto
  then obtain r where r: "llm c (prompt c ?H) = Some r"
    by (auto simp: always_answers_def)
  let ?k' = "if lacks_id r then Suc k else k"
  let ?\<sigma>' = "\<sigma>\<lparr>list_at := (list_at \<sigma>)(messages fresh_state := ?H @ [stamped uuid4 k r])\<rparr>"
  from node_step_append [OF Nil.prems(2) assms(3,4) fa r]
  have step: "node_step uuid4 c fresh_state \<sigma> k = Inr (?\<sigma>', ?k')"
    and ok: "history_ok uuid4 ?k' (?H @ [stamped uuid4 k r])"
    by simp_all
  have node: "map_of (nodes (sequential_graph cfgs)) (name c) = Some c"
    using map_of_named [OF assms(1) c] by (simp add: sequential_graph_def)
  have md: "dict_at ?\<sigma>' (metadata fresh_state) ''max_turns'' = Some (PyInt N)"
    using Nil.prems(3) by simp
  have nxt: "next_nodes (sequential_graph cfgs) (name c) ?\<sigma>' fresh_state =
      Inr [if int (length (list_at ?\<sigma>' (messages fresh_state))) < N then Node (name (hd cfgs)) else END]"
    using assms(1) Nil.prems(1) md by (rule next_nodes_last)
  have "run_nodes uuid4 (sequential_graph cfgs) fresh_state (Suc (length ([]::AgentConfig list)) + fuel) (name c) \<sigma> k visited =
          (if int (length (list_at ?\<sigma>' (messages fresh_state))) < N
           then run_nodes uuid4 (sequential_graph cfgs) fresh_state fuel (name (hd cfgs)) ?\<sigma>' ?k'
                  (visited @ map name [c])
           else Returned (list_at ?\<sigma>' (messages fresh_state)) (dict_at ?\<sigma>' (metadata fresh_state))
                  (visited @ map name [c]))" for fuel visited
    using node step nxt by simp
  moreover have "history_ok uuid4 ?k' (list_at ?\<sigma>' (messages fresh_state))"
    using ok by simp
  moreover have "length (list_at ?\<sigma>' (messages fresh_state)) = length ?H + Suc (length ([]::AgentConfig list))"
    by simp
  moreover have "dict_at ?\<sigma>' = dict_at \<sigma>" by simp
  ultimately show ?case by blast
next
  case (Cons d rest)
  let ?H = "list_at \<sigma> (messages fresh_state)"
  from Cons.prems(1) have c: "c \<in> set cfgs" by simp
  with assms(5) have fa: "fresh_answers uuid4 c" and "always_answers c" by auto
  then obtain r where r: "llm c (prompt c ?H) = Some r"
    by (auto simp: always_answers_def)
  let ?k1 = "if lacks_id r then Suc k else k"
  let ?\<sigma>1 = "\<sigma>\<lparr>list_at := (list_at \<sigma>)(messages fresh_state := ?H @ [stamped uuid4 k r])\<rparr>"
  from node_step_append [OF Cons.prems(2) assms(3,4) fa r]
  have step: "node_step uuid4 c fresh_state \<sigma> k = Inr (?\<sigma>1, ?k1)"
    and ok: "history_ok uuid4 ?k1 (?H @ [stamped uuid4 k r])"
    by simp_all
  have node: "map_of (nodes (sequential_graph cfgs)) (name c) = Some c"
    using map_of_named [OF assms(1) c] by (simp add: sequential_graph_def)
  have nxt: "next_nodes (sequential_graph cfgs) (name c) ?\<sigma>1 fresh_state = Inr [Node (name d)]"
    using assms(1,2) Cons.prems(1) by (rule next_nodes_mid)
  have first: "run_nodes uuid4 (sequential_graph cfgs) fresh_state (Suc fuel) (name c) \<sigma> k visited =
      run_nodes uuid4 (sequential_graph cfgs) fresh_state fuel (name d) ?\<sigma>1 ?k1 (visited @ [name c])"
    for fuel visited
    using node step nxt by simp
  have split: "cfgs = (pre @ [c]) @ d # rest" using Cons.prems(1) by simp
  have ok1: "history_ok uuid4 ?k1 (list_at ?\<sigma>1 (messages fresh_state))" using ok by simp
  have md1: "dict_at ?\<sigma>1 (metadata fresh_state) ''max_turns'' = Some (PyInt N)"
    using Cons.prems(3) by simp
  from Cons.IH [OF split ok1 md1] obtain \<sigma>' k' where
    ok': "history_ok uuid4 k' (list_at \<sigma>' (messages fresh_state))"
    and len: "length (list_at \<sigma>' (messages fresh_state))
              = length (list_at ?\<sigma>1 (messages fresh_state)) + Suc (length rest)"
    and dict: "dict_at \<sigma>' = dict_at ?\<sigma>1"
    and rest: "\<And>fuel visited.
        run_nodes uuid4 (sequential_graph cfgs) fresh_state (Suc (length rest) + fuel) (name d) ?\<sigma>1 ?k1 visited =
          (if int (length (list_at \<sigma>' (messages fresh_state))) < N
           then run_nodes uuid4 (sequential_graph cfgs) fresh_state fuel (name (hd cfgs)) \<sigma>' k'
                  (visited @ map name (d # rest))
           else Returned (list_at \<sigma>' (messages fresh_state)) (dict_at \<sigma>' (metadata fresh_state))
                  (visited @ map name (d # rest)))"
    by blast
  have "run_nodes uuid4 (sequential_graph cfgs) fresh_state (Suc (length (d # rest)) + fuel) (name c) \<sigma> k visited =
          (if int (length (list_at \<sigma>' (messages fresh_state))) < N
           then run_nodes uuid4 (sequential_graph cfgs) fresh_state fuel (name (hd cfgs)) \<sigma>' k'
                  (visited @ map name (c # d # rest))
           else Returned (list_at \<sigma>' (messages fresh_state)) (dict_at \<sigma>' (metadata fresh_state))
                  (visited @ map name (c # d # rest)))" for fuel visited
    using first [of "Suc (length rest) + fuel" visited] rest [of fuel "visited @ [name c]"]
    by simp
  moreover have "length (list_at \<sigma>' (messages fresh_state)) = length ?H + Suc (length (d # rest))"
    using len by simp
  moreover have "dict_at \<sigma>' = dict_at \<sigma>" using dict by simp
  ultimately show ?case using ok' by blast
qed

lemma run_nodes_rounds:
  assumes "cfgs \<noteq> []" and "distinct (map name cfgs)" and "\<forall>c\<in>set cfgs. name c \<noteq> []"
    and "inj uuid4" and "\<forall>n. uuid4 n \<noteq> []"
    and "\<forall>c\<in>set cfgs. fresh_answers uuid4 c \<and> always_answers c"
    and "history_ok uuid4 k (list_at \<sigma> (messages fresh_state))"
    and "dict_at \<sigma> (metadata fresh_state) ''max_turns'' = Some (PyInt N)"
  shows "\<exists>j ms. 1 \<le> j \<and>
           length ms = length (list_at \<sigma> (messages fresh_state)) + j * length cfgs \<and>
           N \<le> int (length ms) \<and>
           (j = 1 \<or> int (length ms - length cfgs) < N) \<and>
           (\<forall>fuel visited.
              run_nodes uuid4 (sequential_graph cfgs) fresh_state (j * length cfgs + fuel)
                  (name (hd cfgs)) \<sigma> k visited
                = Returned ms (dict_at \<sigma> (metadata fresh_state))
                    (visited @ concat (replicate j (map name cfgs))))"
  using assms(7,8)
proof (induction "nat (N - int (length (list_at \<sigma> (messages fresh_state))))"
    arbitrary: \<sigma> k rule: less_induct)
  case less
  let ?g = "sequential_graph cfgs"
  let ?n = "length cfgs"
  let ?L = "length (list_at \<sigma> (messages fresh_state))"
  from assms(1) have split: "cfgs = [] @ hd cfgs # tl cfgs" by simp
  from assms(1) have n: "Suc (length (tl cfgs)) = ?n" by simp
  from assms(1) have names: "map name (hd cfgs # tl cfgs) = map name cfgs" by simp
  from run_nodes_segment [OF assms(2,3,4,5,6) split less.prems(1,2)] obtain \<sigma>' k' where
    ok': "history_ok uuid4 k' (list_at \<sigma>' (messages fresh_state))"
    and len: "length (list_at \<sigma>' (messages fresh_state)) = ?L + ?n"
    and dict: "dict_at \<sigma>' = dict_at \<sigma>"
    and seg: "\<And>fuel visited.
        run_nodes uuid4 ?g fresh_state (?n + fuel) (name (hd cfgs)) \<sigma> k visited =
          (if int (length (list_at \<sigma>' (messages fresh_state))) < N
           then run_nodes uuid4 ?g fresh_state fuel (name (hd cfgs)) \<sigma>' k' (visited @ map name cfgs)
           else Returned (list_at \<sigma>' (messages fresh_state)) (dict_at \<sigma>' (metadata fresh_state))
                  (visited @ map name cfgs))"
    unfolding n names by blast
  show ?case
  proof (cases "int (?L + ?n) < N")
    case False
    let ?ms = "list_at \<sigma>' (messages fresh_state)"
    have "run_nodes uuid4 ?g fresh_state (1 * ?n + fuel) (name (hd cfgs)) \<sigma> k visited
            = Returned ?ms (dict_at \<sigma> (metadata fresh_state))
                (visited @ concat (replicate 1 (map name cfgs)))" for fuel visited
      using seg [of fuel visited] False len dict by simp
    moreover have "length ?ms = ?L + 1 * ?n" using len by simp
    moreover have "N \<le> int (length ?ms)" using False len by simp
    ultimately show ?thesis by (intro exI [of _ 1] exI [of _ ?ms]) blast
  next
    case True
    from assms(1) have "0 < ?n" by simp
    with True len
    have dec: "nat (N - int (length (list_at \<sigma>' (messages fresh_state))))
                 < nat (N - int ?L)"
      by simp
    have md': "dict_at \<sigma>' (metadata fresh_state) ''max_turns'' = Some (PyInt N)"
      using less.prems(2) dict by simp
    from less.hyps [OF dec ok' md'] obtain j ms where
      j: "1 \<le> j"
      and lms: "length ms = length (list_at \<sigma>' (messages fresh_state)) + j * ?n"
      and ge: "N \<le> int (length ms)"
      and least: "j = 1 \<or> int (length ms - ?n) < N"
      and run: "\<And>fuel visited.
         run_nodes uuid4 ?g fresh_state (j * ?n + fuel) (name (hd cfgs)) \<sigma>' k' visited
           = Returned ms (dict_at \<sigma>' (metadata fresh_state))
               (visited @ concat (replicate j (map name cfgs)))"
      by blast
    have "run_nodes uuid4 ?g fresh_state (Suc j * ?n + fuel) (name (hd cfgs)) \<sigma> k visited
            = Returned ms (dict_at \<sigma> (metadata fresh_state))
                (visited @ concat (replicate (Suc j) (map name cfgs)))" for fuel visited
    proof -
      have eq: "Suc j * ?n + fuel = ?n + (j * ?n + fuel)" by simp
      show ?thesis
        unfolding eq
        using seg [of "j * ?n + fuel" visited] run [of fuel "visited @ map name cfgs"] True len dict
        by simp
    qed
    moreover have "length ms = ?L + Suc j * ?n" using lms len by simp
    moreover have "int (length ms - ?n) < N"
    proof (cases "j = 1")
      case True
      with lms len \<open>int (?L + ?n) < N\<close> show ?thesis by simp
    next
      case False
      with least have "int (length ms - ?n) < N" by simp
      then show ?thesis .
    qed
    ultimately show ?thesis using ge
      by (intro exI [of _ "Suc j"] exI [of _ ms]) simp
  qed
qed

lemma broadcast_next_nodes:
  assumes "MultiAgentWorkflow_init cfgs ''broadcast'' = Inr w"
  shows "branches (graph w) = []"
    and "next_nodes (graph w) n \<sigma> state
           = Inr (map (\<lambda>e. Node (snd e)) (filter (\<lambda>e. fst e = n) (edges (graph w))))"
  using init_broadcast [OF assms] by (simp_all add: next_nodes_def)

lemma run_nodes_two_cycle:
  assumes "inj uuid4" and "\<forall>n. uuid4 n \<noteq> []"
    and "map_of (nodes g) a = Some x" and "map_of (nodes g) b = Some y"
    and "\<And>\<sigma> s. next_nodes g a \<sigma> s = Inr [Node b]"
    and "\<And>\<sigma> s. next_nodes g b \<sigma> s = Inr [Node a]"
    and "always_answers x" and "always_answers y"
    and "fresh_answers uuid4 x" and "fresh_answers uuid4 y"
    and "history_ok uuid4 k (list_at \<sigma> (messages fresh_state))"
  shows "\<exists>ms. run_nodes uuid4 g fresh_state fuel a \<sigma> k visited
                 = StepLimit ms (visited @ alternate fuel a b) \<and>
              length ms = length (list_at \<sigma> (messages fresh_state)) + fuel"
  using assms(3-)
proof (induction fuel arbitrary: a b x y \<sigma> k visited)
  case 0
  then show ?case by simp
next
  case (Suc fuel)
  let ?H = "list_at \<sigma> (messages fresh_state)"
  from Suc.prems(5) obtain r where r: "llm x (prompt x ?H) = Some r"
    by (auto simp: always_answers_def)
  let ?\<sigma> = "\<sigma>\<lparr>list_at := (list_at \<sigma>)(messages fresh_state := ?H @ [stamped uuid4 k r])\<rparr>"
  let ?k = "if lacks_id r then Suc k else k"
  from node_step_append [OF Suc.prems(9) assms(1,2) Suc.prems(7) r]
  have step: "node_step uuid4 x fresh_state \<sigma> k = Inr (?\<sigma>, ?k)"
    and ok: "history_ok uuid4 ?k (?H @ [stamped uuid4 k r])"
    by simp_all
  from ok have ok': "history_ok uuid4 ?k (list_at ?\<sigma> (messages fresh_state))"
    by simp
  from Suc.IH [OF Suc.prems(2) Suc.prems(1) Suc.prems(4) Suc.prems(3) Suc.prems(6) Suc.prems(5)
      Suc.prems(8) Suc.prems(7) ok', of "visited @ [a]"]
  obtain ms where "run_nodes uuid4 g fresh_state fuel b ?\<sigma> ?k (visited @ [a])
      = StepLimit ms ((visited @ [a]) @ alternate fuel b a)"
    and "length ms = length (list_at ?\<sigma> (messages fresh_state)) + fuel"
    by blast
  with step Suc.prems(1) Suc.prems(3) show ?case by simp
qed

lemma echo_agent_fresh: "fresh_answers uuid4 (echo_agent nm)"
  by (simp add: fresh_answers_def echo_agent_def anon_def lacks_id_def)

lemma echo_agent_answers: "always_answers (echo_agent nm)"
  by (simp add: always_answers_def echo_agent_def)

lemmas run_simps =
  MultiAgentWorkflow_init_def agents_dict_def build_graph_def empty_graph_def broadcast_edges_def
  echo_agent_def run_def invoke_def seed_store_def reduce_messages_def assign_ids_simps lacks_id_def
  merge_loop_def merge_one_def node_step_def process_def reduce_on_def next_nodes_def
  MultiAgentWorkflow_should_continue_def turns_left_def fresh_state_def uuid_demo_def anon_def
  msg_def human_def

lemma abc_run_4:
  "run uuid_demo 3 (projr (MultiAgentWorkflow_init abc ''sequential'')) ''start''
       (Some [''max_turns'' \<mapsto> PyInt 4])
     = Returned [human ''u'' ''start'', msg ''uu'' ''A'', msg ''uuu'' ''B'', msg ''uuuu'' ''C'']
         [''max_turns'' \<mapsto> PyInt 4] [''A'', ''B'', ''C'']"
  by (simp add: abc_def run_simps numeral_3_eq_3)

section \<open>The claims\<close>

text \<open>
  C1, as amended. For every existing history with pairwise-distinct ids and every
  incoming batch, \<open>reduce_messages\<close> gives the messages that lack an id the next
  results of the generator, in order, and leaves the others as they are; with a
  generator that is injective, never returns the empty string and returns no id of
  either list, the ids given are pairwise distinct and differ from every id present.
  The result is the merge by id: an existing entry whose id an incoming message has is
  replaced at its place (by the last such message), the order of the rest unchanged; an
  incoming message whose id matches no existing entry and no earlier incoming message
  is appended, in incoming order; an incoming message whose id matches an earlier
  appended one replaces that one at its place.
\<close>

theorem reduce_messages_merge:
  assumes "distinct (map msg_id left)"
    and "inj uuid4"
    and "\<forall>n. uuid4 n \<noteq> []"
    and "\<forall>n. Some (uuid4 n) \<notin> set (map msg_id left) \<union> set (map msg_id right)"
    and "assign_ids uuid4 k right = (right', k')"
  shows "reduce_messages uuid4 k left right = (merge_by_id left right', k') \<and>
         length right' = length right \<and>
         kept right right' = filter (\<lambda>m. \<not> lacks_id m) right \<and>
         (\<forall>m\<in>set right'. \<not> lacks_id m) \<and>
         map msg_id (assigned right right') = map (\<lambda>n. Some (uuid4 n)) [k..<k'] \<and>
         distinct (map msg_id (assigned right right')) \<and>
         set (map msg_id (assigned right right'))
           \<inter> (set (map msg_id left) \<union> set (map msg_id right)) = {}"
proof -
  have r': "right' = fst (assign_ids uuid4 k right)" and k': "k' = snd (assign_ids uuid4 k right)"
    using assms(5) by simp_all
  have ids: "map msg_id (assigned right right') = map (\<lambda>n. Some (uuid4 n)) [k..<k']"
    unfolding r' k' by (rule assign_ids_assigned)
  have "inj (\<lambda>n. Some (uuid4 n))"
    using assms(2) by (simp add: inj_def)
  then have d: "distinct (map msg_id (assigned right right'))"
    unfolding ids by (simp add: distinct_map inj_on_def inj_def)
  have fresh: "set (map msg_id (assigned right right'))
           \<inter> (set (map msg_id left) \<union> set (map msg_id right)) = {}"
    unfolding ids using assms(4) by auto
  have "reduce_messages uuid4 k left right = (merge_by_id left right', k')"
    using assms(1,5) by (simp add: reduce_messages_def merge_loop_eq)
  moreover have "length right' = length right"
    unfolding r' by (rule assign_ids_length)
  moreover have "kept right right' = filter (\<lambda>m. \<not> lacks_id m) right"
    unfolding r' by (rule assign_ids_kept)
  moreover have "\<forall>m\<in>set right'. \<not> lacks_id m"
    unfolding r' using assms(3) assign_ids_has_id by blast
  ultimately show ?thesis using ids d fresh by simp
qed

theorem reduce_messages_merge_witness:
  "distinct (map msg_id [msg ''a'' ''1'', msg ''b'' ''2'']) \<and>
   inj uuid_demo \<and>
   assign_ids uuid_demo 0 [anon ''3'', msg ''a'' ''4'', msg ''c'' ''6'', msg ''c'' ''7'']
     = ([(anon ''3'')\<lparr>msg_id := Some ''u''\<rparr>, msg ''a'' ''4'', msg ''c'' ''6'', msg ''c'' ''7''], 1) \<and>
   reduce_messages uuid_demo 0 [msg ''a'' ''1'', msg ''b'' ''2'']
       [anon ''3'', msg ''a'' ''4'', msg ''c'' ''6'', msg ''c'' ''7'']
     = ([msg ''a'' ''4'', msg ''b'' ''2'', (anon ''3'')\<lparr>msg_id := Some ''u''\<rparr>, msg ''c'' ''7''], 1)"
proof -
  let ?left = "[msg ''a'' ''1'', msg ''b'' ''2'']"
  let ?right = "[anon ''3'', msg ''a'' ''4'', msg ''c'' ''6'', msg ''c'' ''7'']"
  let ?right' = "[(anon ''3'')\<lparr>msg_id := Some ''u''\<rparr>, msg ''a'' ''4'', msg ''c'' ''6'', msg ''c'' ''7'']"
  have h1: "distinct (map msg_id ?left)"
    by (simp add: msg_def)
  have h3: "\<forall>n. uuid_demo n \<noteq> []"
    by (simp add: uuid_demo_def)
  have h4: "\<forall>n. Some (uuid_demo n) \<notin> set (map msg_id ?left) \<union> set (map msg_id ?right)"
    by (simp add: uuid_demo_def msg_def anon_def)
  have h5: "assign_ids uuid_demo 0 ?right = (?right', 1)"
    by (simp add: assign_ids_simps lacks_id_def msg_def anon_def uuid_demo_def)
  have res: "merge_by_id ?left ?right'
      = [msg ''a'' ''4'', msg ''b'' ''2'', (anon ''3'')\<lparr>msg_id := Some ''u''\<rparr>, msg ''c'' ''7'']"
    by (simp add: merge_by_id_def updated_def last_with_id_def new_ids_def
        first_occurrences_def List.map_filter_def msg_def anon_def)
  from reduce_messages_merge [OF h1 uuid_demo_inj h3 h4 h5]
  have "reduce_messages uuid_demo 0 ?left ?right = (merge_by_id ?left ?right', 1)"
    by (rule conjunct1)
  with h1 h5 res uuid_demo_inj show ?thesis by simp
qed

text \<open>
  C1 as stated fails for a batch that carries one new id twice: the second message is
  not appended, it replaces the first one.
\<close>

theorem reduce_messages_merge_counterexample:
  "fst (reduce_messages uuid_demo 0 [] [msg ''x'' ''1'', msg ''x'' ''2'']) = [msg ''x'' ''2''] \<and>
   merge_as_claimed [] [msg ''x'' ''1'', msg ''x'' ''2''] = [msg ''x'' ''1'', msg ''x'' ''2'']"
  by (simp add: reduce_messages_def assign_ids_simps lacks_id_def merge_loop_def merge_one_def
      merge_as_claimed_def msg_def)

text \<open>
  C2, as amended. A sequential run consults the continuation condition only after the
  last agent of a round. With \<open>n\<close> agents of pairwise-distinct, non-empty names, a
  model call that always returns one message (without id, or with a fresh one) and
  \<^verbatim>\<open>max_turns\<close> = \<open>N\<close>, the run returns after \<open>j\<close> complete rounds with \<open>1 + j * n\<close>
  messages, where \<open>j\<close> is the least number of rounds, at least one, after which the
  history has \<open>N\<close> messages or more; it returns so for every step limit of at least
  \<open>j * n\<close>, having run the agents in configuration order \<open>j\<close> times. The history has
  exactly \<open>N\<close> messages only when \<open>N = 1 + j * n\<close>: three agents A, B, C with
  \<^verbatim>\<open>max_turns\<close> = 4 and the seed "start" end with start, A, B, C.
\<close>

theorem sequential_run_rounds:
  assumes "cfgs \<noteq> []" and "distinct (map name cfgs)" and "\<forall>c\<in>set cfgs. name c \<noteq> []"
    and "inj uuid4" and "\<forall>n. uuid4 n \<noteq> []"
    and "\<forall>c\<in>set cfgs. fresh_answers uuid4 c \<and> always_answers c"
    and "MultiAgentWorkflow_init cfgs ''sequential'' = Inr w"
    and "md ''max_turns'' = Some (PyInt N)"
  shows "\<exists>j ms. 1 \<le> j \<and>
           length ms = 1 + j * length cfgs \<and>
           N \<le> int (length ms) \<and>
           (j = 1 \<or> int (length ms - length cfgs) < N) \<and>
           (\<forall>fuel. run uuid4 (j * length cfgs + fuel) w initial_message (Some md)
                     = Returned ms md (concat (replicate j (map name cfgs))))"
proof -
  let ?seed = "\<lparr>msg_id = Some (uuid4 0), msg_type = HumanMessage, content = initial_message\<rparr>"
  let ?\<sigma> = "\<lparr>list_at = (\<lambda>r. [])(0 := [?seed]), dict_at = (\<lambda>r. Map.empty)(0 := md)\<rparr>"
  from seed_store_ok [OF assms(4,5), of initial_message md]
  have seed: "seed_store uuid4 [\<lparr>msg_id = None, msg_type = HumanMessage, content = initial_message\<rparr>] md
                = (?\<sigma>, Suc 0)"
    and ok: "history_ok uuid4 (Suc 0) [?seed]"
    by simp_all
  have ok': "history_ok uuid4 (Suc 0) (list_at ?\<sigma> (messages fresh_state))"
    using ok by (simp add: fresh_state_def)
  have md': "dict_at ?\<sigma> (metadata fresh_state) ''max_turns'' = Some (PyInt N)"
    using assms(8) by (simp add: fresh_state_def)
  from assms(7) init_sequential [OF assms(1,2)]
  have w: "graph w = sequential_graph cfgs" by auto
  from run_nodes_rounds [OF assms(1,2,3,4,5,6) ok' md'] obtain j ms where
    "1 \<le> j" and "length ms = length (list_at ?\<sigma> (messages fresh_state)) + j * length cfgs"
    and "N \<le> int (length ms)" and "j = 1 \<or> int (length ms - length cfgs) < N"
    and run: "\<And>fuel visited.
        run_nodes uuid4 (sequential_graph cfgs) fresh_state (j * length cfgs + fuel)
            (name (hd cfgs)) ?\<sigma> (Suc 0) visited
          = Returned ms (dict_at ?\<sigma> (metadata fresh_state))
              (visited @ concat (replicate j (map name cfgs)))"
    by blast
  moreover have "run uuid4 (j * length cfgs + fuel) w initial_message (Some md)
      = Returned ms md (concat (replicate j (map name cfgs)))" for fuel
    using run [of fuel "[]"] seed w
    by (simp add: run_def invoke_def sequential_graph_def fresh_state_def)
  ultimately show ?thesis
    by (intro exI [of _ j] exI [of _ ms]) (simp add: fresh_state_def)
qed

theorem sequential_run_rounds_witness:
  "abc \<noteq> [] \<and> distinct (map name abc) \<and> inj uuid_demo \<and>
   MultiAgentWorkflow_init abc ''sequential''
     = Inr (projr (MultiAgentWorkflow_init abc ''sequential'')) \<and>
   [''max_turns'' \<mapsto> PyInt 4] ''max_turns'' = Some (PyInt 4) \<and>
   run uuid_demo 3 (projr (MultiAgentWorkflow_init abc ''sequential'')) ''start''
       (Some [''max_turns'' \<mapsto> PyInt 4])
     = Returned [human ''u'' ''start'', msg ''uu'' ''A'', msg ''uuu'' ''B'', msg ''uuuu'' ''C'']
         [''max_turns'' \<mapsto> PyInt 4] (concat (replicate 1 (map name abc))) \<and>
   length [human ''u'' ''start'', msg ''uu'' ''A'', msg ''uuu'' ''B'', msg ''uuuu'' ''C'']
     = 1 + 1 * length abc"
proof -
  let ?w = "projr (MultiAgentWorkflow_init abc ''sequential'')"
  let ?md = "[''max_turns'' \<mapsto> PyInt 4]"
  have h1: "abc \<noteq> []" and h2: "distinct (map name abc)"
    and h3: "\<forall>c\<in>set abc. name c \<noteq> []"
    by (simp_all add: abc_def echo_agent_def)
  have h5: "\<forall>n. uuid_demo n \<noteq> []"
    by (simp add: uuid_demo_def)
  have h6: "\<forall>c\<in>set abc. fresh_answers uuid_demo c \<and> always_answers c"
    by (simp add: abc_def echo_agent_fresh echo_agent_answers)
  have h7: "MultiAgentWorkflow_init abc ''sequential'' = Inr ?w"
    using init_sequential [OF h1 h2] by simp
  have h8: "?md ''max_turns'' = Some (PyInt 4)"
    by simp
  from sequential_run_rounds [where md = ?md and N = 4 and initial_message = "''start''",
      OF h1 h2 h3 uuid_demo_inj h5 h6 h7 h8]
  obtain j ms where j: "1 \<le> j" and len: "length ms = 1 + j * length abc"
    and least: "j = 1 \<or> int (length ms - length abc) < 4"
    and run: "\<And>fuel. run uuid_demo (j * length abc + fuel) ?w ''start'' (Some ?md)
                 = Returned ms ?md (concat (replicate j (map name abc)))"
    by blast
  have "length abc = 3" by (simp add: abc_def)
  with j len least have "j = 1" by auto
  with run [of 0] \<open>length abc = 3\<close>
  have "run uuid_demo 3 ?w ''start'' (Some ?md) = Returned ms ?md (concat (replicate 1 (map name abc)))"
    by simp
  moreover from this abc_run_4
  have "ms = [human ''u'' ''start'', msg ''uu'' ''A'', msg ''uuu'' ''B'', msg ''uuuu'' ''C'']"
    by simp
  ultimately show ?thesis using h1 h2 h7 uuid_demo_inj \<open>length abc = 3\<close> by simp
qed

text \<open>
  C2 as stated fails: with three agents and \<^verbatim>\<open>max_turns\<close> = 3 the run returns with
  four messages.
\<close>

theorem sequential_run_rounds_counterexample:
  "run uuid_demo 3 (projr (MultiAgentWorkflow_init abc ''sequential'')) ''start''
       (Some [''max_turns'' \<mapsto> PyInt 3])
     = Returned [human ''u'' ''start'', msg ''uu'' ''A'', msg ''uuu'' ''B'', msg ''uuuu'' ''C'']
         [''max_turns'' \<mapsto> PyInt 3] [''A'', ''B'', ''C''] \<and>
   length [human ''u'' ''start'', msg ''uu'' ''A'', msg ''uuu'' ''B'', msg ''uuuu'' ''C''] = 4"
  by (simp add: abc_def run_simps numeral_3_eq_3)

text \<open>
  C3. The code at the input of the claim: the two agents X and Y under the broadcast
  pattern, with \<^verbatim>\<open>max_turns\<close> = 2. The broadcast branch of \<^verbatim>\<open>_build_graph\<close> adds
  no conditional edge and no edge to the end of the graph, so the continuation condition
  is never evaluated and the run does not return: whatever the step limit of the executor
  is, the run is cut off by it, after going back and forth between X and Y for that many
  steps, with one message more than steps in the history. With the limit 3, X has run a
  second time, on a history of three messages. Under the sequential pattern, whose branch
  adds the conditional edge, the same agents with the same \<^verbatim>\<open>max_turns\<close> return
  after Y. (Lemma \<open>broadcast_next_nodes\<close>: for every list of agents the graph of the
  broadcast pattern has no conditional edge, and the nodes due after a node do not
  depend on the state.)
\<close>

theorem broadcast_run_never_halts:
  "branches (graph (projr (MultiAgentWorkflow_init xy ''broadcast''))) = [] \<and>
   (\<exists>ms. run uuid_demo fuel (projr (MultiAgentWorkflow_init xy ''broadcast'')) ''start''
            (Some [''max_turns'' \<mapsto> PyInt 2]) = StepLimit ms (alternate fuel ''X'' ''Y'') \<and>
         length ms = 1 + fuel) \<and>
   run uuid_demo 3 (projr (MultiAgentWorkflow_init xy ''broadcast'')) ''start''
       (Some [''max_turns'' \<mapsto> PyInt 2])
     = StepLimit [human ''u'' ''start'', msg ''uu'' ''X'', msg ''uuu'' ''Y'', msg ''uuuu'' ''X'']
         [''X'', ''Y'', ''X''] \<and>
   run uuid_demo 2 (projr (MultiAgentWorkflow_init xy ''sequential'')) ''start''
       (Some [''max_turns'' \<mapsto> PyInt 2])
     = Returned [human ''u'' ''start'', msg ''uu'' ''X'', msg ''uuu'' ''Y'']
         [''max_turns'' \<mapsto> PyInt 2] [''X'', ''Y'']"
proof -
  let ?w = "projr (MultiAgentWorkflow_init xy ''broadcast'')"
  let ?g = "graph ?w"
  have g: "?g = \<lparr>nodes = [(''X'', echo_agent ''X''), (''Y'', echo_agent ''Y'')],
                  edges = [(''X'', ''Y''), (''Y'', ''X'')], branches = [],
                  entry_point = Some ''X''\<rparr>"
    by (simp add: xy_def MultiAgentWorkflow_init_def agents_dict_def build_graph_def empty_graph_def
        broadcast_edges_def echo_agent_def)
  have n1: "map_of (nodes ?g) ''X'' = Some (echo_agent ''X'')"
    and n2: "map_of (nodes ?g) ''Y'' = Some (echo_agent ''Y'')"
    by (simp_all add: g)
  have e1: "next_nodes ?g ''X'' \<sigma> s = Inr [Node ''Y'']"
    and e2: "next_nodes ?g ''Y'' \<sigma> s = Inr [Node ''X'']" for \<sigma> s
    by (simp_all add: g next_nodes_def)
  have ne: "\<forall>n. uuid_demo n \<noteq> []" by (simp add: uuid_demo_def)
  note seed = seed_store_ok [OF uuid_demo_inj ne, of "''start''" "[''max_turns'' \<mapsto> PyInt 2]"]
  from seed have ok: "history_ok uuid_demo (Suc 0)
      (list_at \<lparr>list_at = (\<lambda>r. [])(0 := [\<lparr>msg_id = Some (uuid_demo 0), msg_type = HumanMessage,
                   content = ''start''\<rparr>]),
                dict_at = (\<lambda>r. Map.empty)(0 := [''max_turns'' \<mapsto> PyInt 2])\<rparr> (messages fresh_state))"
    by (simp add: fresh_state_def)
  from run_nodes_two_cycle [OF uuid_demo_inj ne n1 n2 e1 e2 echo_agent_answers echo_agent_answers
      echo_agent_fresh echo_agent_fresh ok, of fuel "[]"] seed
  have cut: "\<exists>ms. run uuid_demo fuel ?w ''start'' (Some [''max_turns'' \<mapsto> PyInt 2])
                 = StepLimit ms (alternate fuel ''X'' ''Y'') \<and> length ms = 1 + fuel"
    by (simp add: run_def invoke_def g fresh_state_def)
  have three: "run uuid_demo 3 ?w ''start'' (Some [''max_turns'' \<mapsto> PyInt 2])
     = StepLimit [human ''u'' ''start'', msg ''uu'' ''X'', msg ''uuu'' ''Y'', msg ''uuuu'' ''X'']
         [''X'', ''Y'', ''X'']"
    by (simp add: xy_def run_simps numeral_3_eq_3)
  have seq: "run uuid_demo 2 (projr (MultiAgentWorkflow_init xy ''sequential'')) ''start''
       (Some [''max_turns'' \<mapsto> PyInt 2])
     = Returned [human ''u'' ''start'', msg ''uu'' ''X'', msg ''uuu'' ''Y'']
         [''max_turns'' \<mapsto> PyInt 2] [''X'', ''Y'']"
    by (simp add: xy_def run_simps numeral_2_eq_2)
  from g cut three seq show ?thesis by simp
qed

text \<open>
  C4, as amended. Constructing a workflow from the empty agent list fails, before any
  run, with \<^verbatim>\<open>IndexError\<close>, whatever the pattern is. From a non-empty list the
  constructor's own code raises nothing, for every pattern: configurations that share a
  name are collapsed (the name keeps the place of its first configuration and the
  agent of its last one), and for a pattern that is neither "sequential" nor
  "broadcast" the graph gets no node, no edge and no conditional edge, only the entry
  point.
\<close>

theorem workflow_construction:
  "MultiAgentWorkflow_init [] pattern = Inl IndexError \<and>
   (cfgs \<noteq> [] \<longrightarrow>
      (\<exists>g. MultiAgentWorkflow_init cfgs pattern
             = Inr \<lparr>agents = agents_dict cfgs, communication_pattern = pattern, graph = g\<rparr> \<and>
           entry_point g = Some (name (hd cfgs)) \<and>
           (pattern \<noteq> ''sequential'' \<and> pattern \<noteq> ''broadcast'' \<longrightarrow>
              nodes g = [] \<and> edges g = [] \<and> branches g = []))) \<and>
   map fst (agents_dict cfgs) = first_occurrences (map name cfgs) \<and>
   (\<forall>nm. map_of (agents_dict cfgs) nm = find (\<lambda>c. name c = nm) (rev cfgs))"
proof -
  have empty: "MultiAgentWorkflow_init [] pattern = Inl IndexError"
    by (simp add: MultiAgentWorkflow_init_def agents_dict_def build_graph_def)
  have nonempty: "\<exists>g. MultiAgentWorkflow_init cfgs pattern
             = Inr \<lparr>agents = agents_dict cfgs, communication_pattern = pattern, graph = g\<rparr> \<and>
           entry_point g = Some (name (hd cfgs)) \<and>
           (pattern \<noteq> ''sequential'' \<and> pattern \<noteq> ''broadcast'' \<longrightarrow>
              nodes g = [] \<and> edges g = [] \<and> branches g = [])"
    if "cfgs \<noteq> []"
  proof -
    from that obtain c cs where cfgs: "cfgs = c # cs" by (cases cfgs) auto
    then obtain v rest where d: "agents_dict cfgs = (name c, v) # rest"
      using agents_dict_Cons [of c cs] by auto
    from build_graph_nonempty [OF d, of pattern] cfgs show ?thesis
      by (auto simp: MultiAgentWorkflow_init_def)
  qed
  from empty nonempty show ?thesis
    by (simp add: agents_dict_keys agents_dict_lookup)
qed

theorem workflow_construction_witness:
  "[echo_agent ''A'', echo_agent ''B''] \<noteq> [] \<and>
   \<not> isl (MultiAgentWorkflow_init [echo_agent ''A'', echo_agent ''B''] ''ring'') \<and>
   graph (projr (MultiAgentWorkflow_init [echo_agent ''A'', echo_agent ''B''] ''ring''))
     = empty_graph\<lparr>entry_point := Some ''A''\<rparr>"
proof -
  have h: "[echo_agent ''A'', echo_agent ''B''] \<noteq> []" by simp
  from workflow_construction [of "''ring''" "[echo_agent ''A'', echo_agent ''B'']"] h
  obtain g where "MultiAgentWorkflow_init [echo_agent ''A'', echo_agent ''B''] ''ring''
        = Inr \<lparr>agents = agents_dict [echo_agent ''A'', echo_agent ''B''],
               communication_pattern = ''ring'', graph = g\<rparr>"
      and "entry_point g = Some (name (hd [echo_agent ''A'', echo_agent ''B'']))"
      and "nodes g = [] \<and> edges g = [] \<and> branches g = []"
    by auto
  then show ?thesis by (cases g) (simp add: empty_graph_def echo_agent_def)
qed

text \<open>
  C4 as stated fails: two configurations of the same name construct a workflow, with
  one agent and one node.
\<close>

theorem workflow_construction_counterexample:
  "\<not> isl (MultiAgentWorkflow_init [echo_agent ''A'', echo_agent ''A''] ''sequential'') \<and>
   map fst (agents (projr (MultiAgentWorkflow_init [echo_agent ''A'', echo_agent ''A''] ''sequential'')))
     = [''A''] \<and>
   map fst (nodes (graph (projr (MultiAgentWorkflow_init [echo_agent ''A'', echo_agent ''A'']
       ''sequential'')))) = [''A'']"
  by (simp add: MultiAgentWorkflow_init_def agents_dict_def build_graph_def empty_graph_def
      echo_agent_def)

text \<open>
  C5, as amended. \<open>reduce_messages\<close> has no failure mode: it returns a list for
  every input, and it does not detect duplicate ids in the existing sequence. The ids
  of the existing sequence are, in order, the first ids of the result, followed by the
  new ids; so the result has pairwise-distinct ids exactly when the existing sequence
  has. Of the existing entries that share an id only the first is ever replaced (by the
  last incoming message with that id); the later ones stay as they are.
\<close>

theorem reduce_messages_never_fails:
  "fst (reduce_messages uuid4 k left right)
     = merge_first_by_id left (fst (assign_ids uuid4 k right)) \<and>
   map msg_id (fst (reduce_messages uuid4 k left right))
     = map msg_id left @ new_ids left (fst (assign_ids uuid4 k right)) \<and>
   distinct (map msg_id (fst (reduce_messages uuid4 k left right))) = distinct (map msg_id left)"
proof -
  let ?right' = "fst (assign_ids uuid4 k right)"
  have r: "fst (reduce_messages uuid4 k left right) = merge_loop left ?right'"
    by (simp add: reduce_messages_def split: prod.splits)
  have "distinct (new_ids left ?right')"
    by (simp add: new_ids_def distinct_first_occurrences)
  then have "distinct (map msg_id left @ new_ids left ?right') = distinct (map msg_id left)"
    by (auto simp: set_new_ids)
  then show ?thesis by (simp add: r merge_loop_ids merge_loop_first_by_id [symmetric])
qed

text \<open>
  C5 as stated fails: on an existing sequence with two entries of one id the function
  returns, and the duplicate is still there.
\<close>

theorem reduce_messages_never_fails_counterexample:
  "\<not> distinct (map msg_id [msg ''x'' ''1'', msg ''x'' ''2'']) \<and>
   reduce_messages uuid_demo 0 [msg ''x'' ''1'', msg ''x'' ''2''] [msg ''x'' ''3'']
     = ([msg ''x'' ''3'', msg ''x'' ''2''], 0)"
  by (simp add: reduce_messages_def assign_ids_simps lacks_id_def merge_loop_def merge_one_def
      msg_def)






text \<open>
  C8. The code at a state whose last message is the completion marker that its metadata
  names, with two messages and \<^verbatim>\<open>max_turns\<close> = 10: both conditions answer "continue".
  Neither function reads a message content (lemma \<open>turns_left_length_only\<close>: replacing
  every message by any other leaves the answer as it is) or any metadata key but
  \<^verbatim>\<open>max_turns\<close>.
\<close>

theorem should_continue_ignores_markers:
  "SingleAgent_should_continue demo_store fresh_state = Inr True \<and>
   MultiAgentWorkflow_should_continue demo_store fresh_state = Inr True"
  by (simp add: SingleAgent_should_continue_def MultiAgentWorkflow_should_continue_def
      turns_left_def demo_store_def fresh_state_def)

text \<open>
  C9, as amended. When the model call returns, \<^verbatim>\<open>process\<close> returns the state it was
  given, after appending the one response to the list that the state's
  \<^verbatim>\<open>messages\<close> refers to, in place: the history afterwards is the history before
  followed by the response as the model returned it. Every other list and every
  dictionary of the store, the metadata among them, is unchanged.
\<close>

theorem process_appends_in_place:
  assumes "process cfg \<sigma> state = Inr (\<sigma>', state')"
  shows "state' = state \<and>
         (\<exists>response.
            llm cfg (\<lparr>msg_id = None, msg_type = SystemMessage, content = system_message cfg\<rparr>
                     # list_at \<sigma> (messages state)) = Some response \<and>
            list_at \<sigma>' (messages state) = list_at \<sigma> (messages state) @ [response]) \<and>
         (\<forall>r. r \<noteq> messages state \<longrightarrow> list_at \<sigma>' r = list_at \<sigma> r) \<and>
         dict_at \<sigma>' = dict_at \<sigma>"
  using process_Inr [OF assms] by auto

theorem process_appends_in_place_witness:
  "process (echo_agent ''A'') demo_store fresh_state
     = Inr (demo_store\<lparr>list_at := (list_at demo_store)(0 := list_at demo_store 0 @ [anon ''A''])\<rparr>, fresh_state) \<and>
   dict_at (demo_store\<lparr>list_at := (list_at demo_store)(0 := list_at demo_store 0 @ [anon ''A''])\<rparr>)
     = dict_at demo_store"
proof -
  have h: "process (echo_agent ''A'') demo_store fresh_state
     = Inr (demo_store\<lparr>list_at := (list_at demo_store)(0 := list_at demo_store 0 @ [anon ''A''])\<rparr>, fresh_state)"
    by (simp add: process_def echo_agent_def fresh_state_def)
  from process_appends_in_place [OF h] h show ?thesis by simp
qed

text \<open>
  C9 as stated fails: the caller's list has one more message after the call, and the
  response in it has no id, unlike in the merge of the history with the response.
\<close>

theorem process_appends_in_place_counterexample:
  "list_at demo_store (messages fresh_state) = [msg ''s'' ''start'', msg ''t'' ''TASK COMPLETE''] \<and>
   list_at (fst (projr (process (echo_agent ''A'') demo_store fresh_state))) (messages fresh_state)
     = [msg ''s'' ''start'', msg ''t'' ''TASK COMPLETE'', anon ''A''] \<and>
   fst (reduce_messages uuid_demo 0 [msg ''s'' ''start'', msg ''t'' ''TASK COMPLETE''] [anon ''A''])
     = [msg ''s'' ''start'', msg ''t'' ''TASK COMPLETE'', (anon ''A'')\<lparr>msg_id := Some ''u''\<rparr>]"
  by (simp add: process_def echo_agent_def fresh_state_def demo_store_def reduce_messages_def
      assign_ids_simps lacks_id_def merge_loop_def merge_one_def msg_def anon_def uuid_demo_def)

text \<open>
  C10. When the existing sequence has pairwise-distinct ids, so has the result, whatever
  the incoming batch is; and for every id of the incoming batch (as it is after the
  first loop) the result has exactly one entry with that id, which is the last message
  of the batch that carries it.
\<close>

theorem reduce_messages_duplicate_incoming:
  assumes "distinct (map msg_id left)"
    and "assign_ids uuid4 k right = (right', k')"
  shows "distinct (map msg_id (fst (reduce_messages uuid4 k left right))) \<and>
         (\<forall>i\<in>set (map msg_id right').
            map Some (filter (\<lambda>e. msg_id e = i) (fst (reduce_messages uuid4 k left right)))
              = [last_with_id i right'])"
  using assms by (simp add: reduce_messages_def merge_loop_distinct merged_entry_is_last)

theorem reduce_messages_duplicate_incoming_witness:
  "distinct (map msg_id [msg ''a'' ''1'']) \<and>
   distinct (map msg_id (fst (reduce_messages uuid_demo 0 [msg ''a'' ''1'']
       [msg ''c'' ''6'', msg ''a'' ''4'', msg ''c'' ''7'', msg ''a'' ''5'']))) \<and>
   map Some (filter (\<lambda>e. msg_id e = Some ''c'')
       (fst (reduce_messages uuid_demo 0 [msg ''a'' ''1'']
          [msg ''c'' ''6'', msg ''a'' ''4'', msg ''c'' ''7'', msg ''a'' ''5''])))
     = [Some (msg ''c'' ''7'')] \<and>
   map Some (filter (\<lambda>e. msg_id e = Some ''a'')
       (fst (reduce_messages uuid_demo 0 [msg ''a'' ''1'']
          [msg ''c'' ''6'', msg ''a'' ''4'', msg ''c'' ''7'', msg ''a'' ''5''])))
     = [Some (msg ''a'' ''5'')]"
proof -
  let ?left = "[msg ''a'' ''1'']"
  let ?right = "[msg ''c'' ''6'', msg ''a'' ''4'', msg ''c'' ''7'', msg ''a'' ''5'']"
  have h1: "distinct (map msg_id ?left)"
    by simp
  have h2: "assign_ids uuid_demo 0 ?right = (?right, 0)"
    by (simp add: assign_ids_simps lacks_id_def msg_def)
  have c: "Some ''c'' \<in> set (map msg_id ?right)" and a: "Some ''a'' \<in> set (map msg_id ?right)"
    by (simp_all add: msg_def)
  have lc: "last_with_id (Some ''c'') ?right = Some (msg ''c'' ''7'')"
    and la: "last_with_id (Some ''a'') ?right = Some (msg ''a'' ''5'')"
    by (simp_all add: last_with_id_def msg_def)
  note merged = reduce_messages_duplicate_incoming [OF h1 h2]
  from merged have d: "distinct (map msg_id (fst (reduce_messages uuid_demo 0 ?left ?right)))"
    by (rule conjunct1)
  from merged have each: "\<forall>i\<in>set (map msg_id ?right).
      map Some (filter (\<lambda>e. msg_id e = i) (fst (reduce_messages uuid_demo 0 ?left ?right)))
        = [last_with_id i ?right]"
    by (rule conjunct2)
  from bspec [OF each c] bspec [OF each a] lc la d h1
  show ?thesis by simp
qed

end
